theory Spec2Isabelle
  imports Main
begin

section \<open>RDF terms and the graph store\<close>

text \<open>
  The graph library distinguishes named resources (\<open>URIRef\<close>), anonymous nodes
  (\<open>BNode\<close>) and literals (\<open>Literal\<close>). A literal carries its lexical form, an optional
  datatype and language tag, and the truth value Python gives it in a condition (the
  library computes it from the literal's value). \<open>OtherTerm\<close> stands for any other term
  the store can hold; the extractor only ever takes its string form.
\<close>

datatype node =
    URIRef string
  | BNode string
  | Literal string "string option" "string option" bool
  | OtherTerm string

type_synonym triple = "node \<times> node \<times> node"

text \<open>A graph is the sequence of its triples in the store's iteration order.\<close>

type_synonym graph = "triple list"

fun pystr :: "node \<Rightarrow> string" where
  "pystr (URIRef s) = s"
| "pystr (BNode s) = s"
| "pystr (Literal s dt lang t) = s"
| "pystr (OtherTerm s) = s"

fun truthy :: "node \<Rightarrow> bool" where
  "truthy (URIRef s) = (s \<noteq> [])"
| "truthy (BNode s) = (s \<noteq> [])"
| "truthy (Literal s dt lang t) = t"
| "truthy (OtherTerm s) = (s \<noteq> [])"

fun is_URIRef :: "node \<Rightarrow> bool" where
  "is_URIRef (URIRef s) = True"
| "is_URIRef n = False"

fun is_BNode :: "node \<Rightarrow> bool" where
  "is_BNode (BNode s) = True"
| "is_BNode n = False"

fun is_Literal :: "node \<Rightarrow> bool" where
  "is_Literal (Literal s dt lang t) = True"
| "is_Literal n = False"

subsection \<open>Vocabulary\<close>

definition RDF_type :: node where
  "RDF_type = URIRef ''http://www.w3.org/1999/02/22-rdf-syntax-ns#type''"
definition RDF_first :: node where
  "RDF_first = URIRef ''http://www.w3.org/1999/02/22-rdf-syntax-ns#first''"
definition RDF_rest :: node where
  "RDF_rest = URIRef ''http://www.w3.org/1999/02/22-rdf-syntax-ns#rest''"
definition RDF_nil :: node where
  "RDF_nil = URIRef ''http://www.w3.org/1999/02/22-rdf-syntax-ns#nil''"

definition RDFS_subClassOf :: node where
  "RDFS_subClassOf = URIRef ''http://www.w3.org/2000/01/rdf-schema#subClassOf''"
definition RDFS_domain :: node where
  "RDFS_domain = URIRef ''http://www.w3.org/2000/01/rdf-schema#domain''"
definition RDFS_range :: node where
  "RDFS_range = URIRef ''http://www.w3.org/2000/01/rdf-schema#range''"
definition RDFS_subPropertyOf :: node where
  "RDFS_subPropertyOf = URIRef ''http://www.w3.org/2000/01/rdf-schema#subPropertyOf''"
definition RDFS_label :: node where
  "RDFS_label = URIRef ''http://www.w3.org/2000/01/rdf-schema#label''"
definition RDFS_comment :: node where
  "RDFS_comment = URIRef ''http://www.w3.org/2000/01/rdf-schema#comment''"

definition SKOS_prefLabel :: node where
  "SKOS_prefLabel = URIRef ''http://www.w3.org/2004/02/skos/core#prefLabel''"
definition SKOS_altLabel :: node where
  "SKOS_altLabel = URIRef ''http://www.w3.org/2004/02/skos/core#altLabel''"

definition OWL_Class :: node where
  "OWL_Class = URIRef ''http://www.w3.org/2002/07/owl#Class''"
definition OWL_ObjectProperty :: node where
  "OWL_ObjectProperty = URIRef ''http://www.w3.org/2002/07/owl#ObjectProperty''"
definition OWL_DatatypeProperty :: node where
  "OWL_DatatypeProperty = URIRef ''http://www.w3.org/2002/07/owl#DatatypeProperty''"
definition OWL_AnnotationProperty :: node where
  "OWL_AnnotationProperty = URIRef ''http://www.w3.org/2002/07/owl#AnnotationProperty''"
definition OWL_equivalentClass :: node where
  "OWL_equivalentClass = URIRef ''http://www.w3.org/2002/07/owl#equivalentClass''"
definition OWL_inverseOf :: node where
  "OWL_inverseOf = URIRef ''http://www.w3.org/2002/07/owl#inverseOf''"
definition OWL_Restriction :: node where
  "OWL_Restriction = URIRef ''http://www.w3.org/2002/07/owl#Restriction''"
definition OWL_onProperty :: node where
  "OWL_onProperty = URIRef ''http://www.w3.org/2002/07/owl#onProperty''"
definition OWL_someValuesFrom :: node where
  "OWL_someValuesFrom = URIRef ''http://www.w3.org/2002/07/owl#someValuesFrom''"
definition OWL_allValuesFrom :: node where
  "OWL_allValuesFrom = URIRef ''http://www.w3.org/2002/07/owl#allValuesFrom''"
definition OWL_hasValue :: node where
  "OWL_hasValue = URIRef ''http://www.w3.org/2002/07/owl#hasValue''"
definition OWL_minQualifiedCardinality :: node where
  "OWL_minQualifiedCardinality = URIRef ''http://www.w3.org/2002/07/owl#minQualifiedCardinality''"
definition OWL_maxQualifiedCardinality :: node where
  "OWL_maxQualifiedCardinality = URIRef ''http://www.w3.org/2002/07/owl#maxQualifiedCardinality''"
definition OWL_qualifiedCardinality :: node where
  "OWL_qualifiedCardinality = URIRef ''http://www.w3.org/2002/07/owl#qualifiedCardinality''"
definition OWL_minCardinality :: node where
  "OWL_minCardinality = URIRef ''http://www.w3.org/2002/07/owl#minCardinality''"
definition OWL_maxCardinality :: node where
  "OWL_maxCardinality = URIRef ''http://www.w3.org/2002/07/owl#maxCardinality''"
definition OWL_cardinality :: node where
  "OWL_cardinality = URIRef ''http://www.w3.org/2002/07/owl#cardinality''"
definition OWL_intersectionOf :: node where
  "OWL_intersectionOf = URIRef ''http://www.w3.org/2002/07/owl#intersectionOf''"
definition OWL_unionOf :: node where
  "OWL_unionOf = URIRef ''http://www.w3.org/2002/07/owl#unionOf''"
definition OWL_complementOf :: node where
  "OWL_complementOf = URIRef ''http://www.w3.org/2002/07/owl#complementOf''"
definition OWL_oneOf :: node where
  "OWL_oneOf = URIRef ''http://www.w3.org/2002/07/owl#oneOf''"
definition OWL_FunctionalProperty :: node where
  "OWL_FunctionalProperty = URIRef ''http://www.w3.org/2002/07/owl#FunctionalProperty''"
definition OWL_InverseFunctionalProperty :: node where
  "OWL_InverseFunctionalProperty = URIRef ''http://www.w3.org/2002/07/owl#InverseFunctionalProperty''"
definition OWL_TransitiveProperty :: node where
  "OWL_TransitiveProperty = URIRef ''http://www.w3.org/2002/07/owl#TransitiveProperty''"
definition OWL_SymmetricProperty :: node where
  "OWL_SymmetricProperty = URIRef ''http://www.w3.org/2002/07/owl#SymmetricProperty''"
definition OWL_AsymmetricProperty :: node where
  "OWL_AsymmetricProperty = URIRef ''http://www.w3.org/2002/07/owl#AsymmetricProperty''"
definition OWL_ReflexiveProperty :: node where
  "OWL_ReflexiveProperty = URIRef ''http://www.w3.org/2002/07/owl#ReflexiveProperty''"
definition OWL_IrreflexiveProperty :: node where
  "OWL_IrreflexiveProperty = URIRef ''http://www.w3.org/2002/07/owl#IrreflexiveProperty''"

subsection \<open>Pattern queries\<close>

text \<open>
  The store's queries, each a filter over the triples in iteration order:
  \<open>g.objects(s, p)\<close>, \<open>g.predicate_objects(s)\<close>, \<open>g.subjects(p, o)\<close>,
  \<open>g.subjects(p, None)\<close>, \<open>g.subjects()\<close>, the membership test \<open>(s, p, None) in g\<close>
  and \<open>g.value(s, p)\<close>, which is the first object or \<open>None\<close>.
\<close>

definition objects :: "graph \<Rightarrow> node \<Rightarrow> node \<Rightarrow> node list" where
  "objects g s p = map (\<lambda>(s', p', ob). ob) (filter (\<lambda>(s', p', ob). s' = s \<and> p' = p) g)"

definition predicate_objects :: "graph \<Rightarrow> node \<Rightarrow> (node \<times> node) list" where
  "predicate_objects g s = map (\<lambda>(s', p, ob). (p, ob)) (filter (\<lambda>(s', p, ob). s' = s) g)"

definition subjects :: "graph \<Rightarrow> node \<Rightarrow> node \<Rightarrow> node list" where
  "subjects g p ob = map (\<lambda>(s, p', ob'). s) (filter (\<lambda>(s, p', ob'). p' = p \<and> ob' = ob) g)"

definition subjects_of_pred :: "graph \<Rightarrow> node \<Rightarrow> node list" where
  "subjects_of_pred g p = map (\<lambda>(s, p', ob). s) (filter (\<lambda>(s, p', ob). p' = p) g)"

definition all_subjects :: "graph \<Rightarrow> node list" where
  "all_subjects g = map (\<lambda>(s, p, ob). s) g"

definition has_pred :: "graph \<Rightarrow> node \<Rightarrow> node \<Rightarrow> bool" where
  "has_pred g s p = (objects g s p \<noteq> [])"

definition graph_value :: "graph \<Rightarrow> node \<Rightarrow> node \<Rightarrow> node option" where
  "graph_value g s p = (case objects g s p of [] \<Rightarrow> None | ob # rest \<Rightarrow> Some ob)"

section \<open>Python values\<close>

text \<open>
  The values the extractor builds for JSON: \<open>None\<close>, strings, lists and dictionaries.
  A dictionary is an association list in insertion order with distinct keys.
\<close>

datatype pyval =
    PNone
  | PStr string
  | PList "pyval list"
  | PDict "(string \<times> pyval) list"

text \<open>\<open>d[key] = v\<close>: replaces the value of an existing key, appends a new key.\<close>

fun dict_set :: "(string \<times> 'v) list \<Rightarrow> string \<Rightarrow> 'v \<Rightarrow> (string \<times> 'v) list" where
  "dict_set [] k v = [(k, v)]"
| "dict_set ((k', v') # d) k v = (if k' = k then (k, v) # d else (k', v') # dict_set d k v)"

text \<open>\<open>d.setdefault(k, []).append(v)\<close>\<close>

fun setdefault_append :: "(string \<times> 'v list) list \<Rightarrow> string \<Rightarrow> 'v \<Rightarrow> (string \<times> 'v list) list" where
  "setdefault_append [] k v = [(k, [v])]"
| "setdefault_append ((k', vs) # d) k v =
     (if k' = k then (k', vs @ [v]) # d else (k', vs) # setdefault_append d k v)"

text \<open>\<open>if x not in xs: xs.append(x)\<close>\<close>

definition append_new :: "'a list \<Rightarrow> 'a \<Rightarrow> 'a list" where
  "append_new xs x = (if x \<in> set xs then xs else xs @ [x])"

section \<open>The extractor\<close>

definition fq :: "node option \<Rightarrow> pyval" where
  "fq n = (case n of None \<Rightarrow> PNone | Some x \<Rightarrow> PStr (pystr x))"

definition get_literals_for_pred :: "graph \<Rightarrow> node \<Rightarrow> node list \<Rightarrow> string list" where
  "get_literals_for_pred g subject preds =
     concat (map (\<lambda>p. map pystr (filter is_Literal (objects g subject p))) preds)"

definition structural_preds :: "node list" where
  "structural_preds =
     [RDF_type, RDFS_subClassOf, OWL_equivalentClass, RDFS_domain, RDFS_range, RDFS_subPropertyOf]"

definition collect_annotations :: "graph \<Rightarrow> node \<Rightarrow> (string \<times> pyval list) list" where
  "collect_annotations g subject =
     fold (\<lambda>(p, ob) ann.
             if p \<in> set structural_preds then ann
             else setdefault_append ann (pystr p) (fq (Some ob)))
          (predicate_objects g subject) []"

subsection \<open>Materialising an RDF list\<close>

text \<open>
  Modelled from the spec: the graph store's list-collection helper (section 6: an optional
  helper that materialises an RDF list directly into an ordered sequence and may throw).
  The helper is the library's, not the repository's. It walks the \<open>rdf:rest\<close> chain while
  the current node is a true value, yields the \<open>rdf:first\<close> value of every link that has
  one, and raises once \<open>rdf:rest\<close> leads back to a link already visited. The result is
  the items yielded and whether the walk ended by raising; \<open>None\<close> is a walk that the
  fuel did not cover.
\<close>

primrec graph_items ::
    "nat \<Rightarrow> graph \<Rightarrow> node option \<Rightarrow> node option list \<Rightarrow> node list \<Rightarrow> (node list \<times> bool) option" where
  "graph_items 0 g lst chain items = None"
| "graph_items (Suc k) g lst chain items =
     (case lst of
        None \<Rightarrow> Some (items, False)
      | Some l \<Rightarrow>
          if \<not> truthy l then Some (items, False)
          else
            let items' = (case graph_value g l RDF_first of
                            None \<Rightarrow> items | Some item \<Rightarrow> items @ [item]);
                nxt = graph_value g l RDF_rest
            in if nxt \<in> set chain then Some (items', True)
               else graph_items k g nxt (chain @ [nxt]) items')"

text \<open>
  The manual walk of \<open>rdf_list_to_py\<close> (the \<open>while\<close> loop of its \<open>except\<close> branch), started
  with the items collected so far. \<open>None\<close> is a walk that the fuel did not cover: on a
  cyclic chain no fuel is enough.
\<close>

primrec manual_walk :: "nat \<Rightarrow> graph \<Rightarrow> node \<Rightarrow> node list \<Rightarrow> node list option" where
  "manual_walk 0 g cur items = None"
| "manual_walk (Suc k) g cur items =
     (if truthy cur \<and> cur \<noteq> RDF_nil then
        (case graph_value g cur RDF_first of
           None \<Rightarrow> Some items
         | Some first \<Rightarrow>
             (case graph_value g cur RDF_rest of
                None \<Rightarrow> Some (items @ [first])
              | Some nxt \<Rightarrow> manual_walk k g nxt (items @ [first])))
      else Some items)"

text \<open>
  \<open>rdf_list_to_py\<close>: the helper first; when it raises, the manual walk from the start
  node, appending to the items the helper had already yielded.
\<close>

definition rdf_list_to_py :: "nat \<Rightarrow> graph \<Rightarrow> node \<Rightarrow> node list option" where
  "rdf_list_to_py fuel g n =
     (case graph_items fuel g (Some n) [Some n] [] of
        None \<Rightarrow> None
      | Some (items, raised) \<Rightarrow> if raised then manual_walk fuel g n items else Some items)"

subsection \<open>Summarising a class expression\<close>

definition filler_preds :: "(node \<times> string) list" where
  "filler_preds =
     [(OWL_someValuesFrom, ''someValuesFrom''),
      (OWL_allValuesFrom, ''allValuesFrom''),
      (OWL_hasValue, ''hasValue''),
      (OWL_minQualifiedCardinality, ''minQualifiedCardinality''),
      (OWL_maxQualifiedCardinality, ''maxQualifiedCardinality''),
      (OWL_qualifiedCardinality, ''qualifiedCardinality''),
      (OWL_minCardinality, ''minCardinality''),
      (OWL_maxCardinality, ''maxCardinality''),
      (OWL_cardinality, ''cardinality'')]"

text \<open>
  One round of the loop over the filler predicates: \<open>rec\<close> is the recursive call, and
  \<open>None\<close> a call that did not return.
\<close>

definition add_filler ::
    "(node \<Rightarrow> pyval option) \<Rightarrow> graph \<Rightarrow> node \<Rightarrow> node \<times> string \<Rightarrow>
     (string \<times> pyval) list option \<Rightarrow> (string \<times> pyval) list option" where
  "add_filler rec g n pk res =
     (case res of
        None \<Rightarrow> None
      | Some d \<Rightarrow>
          (case graph_value g n (fst pk) of
             None \<Rightarrow> Some d
           | Some val \<Rightarrow>
               if is_BNode val \<or> is_URIRef val then
                 (case rec val of None \<Rightarrow> None | Some e \<Rightarrow> Some (dict_set d (snd pk) e))
               else Some (dict_set d (snd pk) (fq (Some val)))))"

text \<open>\<open>[summarize_expression(g, i) for i in items]\<close>\<close>

fun summarize_all :: "(node \<Rightarrow> pyval option) \<Rightarrow> node list \<Rightarrow> pyval list option" where
  "summarize_all rec [] = Some []"
| "summarize_all rec (i # items) =
     (case rec i of
        None \<Rightarrow> None
      | Some e \<Rightarrow> (case summarize_all rec items of None \<Rightarrow> None | Some es \<Rightarrow> Some (e # es)))"

text \<open>The list-valued shapes: materialise the list, summarise each element.\<close>

definition summarize_list ::
    "(node \<Rightarrow> pyval option) \<Rightarrow> node list option \<Rightarrow> string \<Rightarrow> string \<Rightarrow> pyval option" where
  "summarize_list rec items tag field =
     (case items of
        None \<Rightarrow> None
      | Some xs \<Rightarrow>
          (case summarize_all rec xs of
             None \<Rightarrow> None
           | Some es \<Rightarrow> Some (PDict [(''exprType'', PStr tag), (field, PList es)])))"

definition bnode_props :: "graph \<Rightarrow> node \<Rightarrow> (string \<times> pyval list) list" where
  "bnode_props g n =
     fold (\<lambda>(p, ob) props. setdefault_append props (pystr p) (fq (Some ob)))
          (predicate_objects g n) []"

definition props_value :: "(string \<times> pyval list) list \<Rightarrow> pyval" where
  "props_value props = PDict (map (\<lambda>(k, vs). (k, PList vs)) props)"

definition is_restriction :: "graph \<Rightarrow> node \<Rightarrow> bool" where
  "is_restriction g n =
     ((n, RDF_type, OWL_Restriction) \<in> set g \<or> graph_value g n OWL_onProperty \<noteq> None)"

text \<open>
  \<open>summarize_expression\<close>. The fuel bounds the depth of the recursion and the length of
  every list walk below it; \<open>None\<close> is a call that the fuel did not cover.
\<close>

primrec summarize_expression :: "nat \<Rightarrow> graph \<Rightarrow> node \<Rightarrow> pyval option" where
  "summarize_expression 0 g n = None"
| "summarize_expression (Suc k) g n =
     (if is_URIRef n then Some (PDict [(''exprType'', PStr ''Named''), (''iri'', PStr (pystr n))])
      else if is_Literal n then
        Some (PDict [(''exprType'', PStr ''Literal''), (''value'', PStr (pystr n))])
      else if \<not> is_BNode n then
        Some (PDict [(''exprType'', PStr ''Unknown''), (''value'', fq (Some n))])
      else if is_restriction g n then
        map_option PDict
          (fold (add_filler (summarize_expression k g) g n) filler_preds
             (Some [(''exprType'', PStr ''Restriction''),
                    (''onProperty'', fq (graph_value g n OWL_onProperty))]))
      else
        (case graph_value g n OWL_intersectionOf of
           Some inter_list \<Rightarrow>
             summarize_list (summarize_expression k g) (rdf_list_to_py k g inter_list)
               ''Intersection'' ''operands''
         | None \<Rightarrow>
        (case graph_value g n OWL_unionOf of
           Some union_list \<Rightarrow>
             summarize_list (summarize_expression k g) (rdf_list_to_py k g union_list)
               ''Union'' ''operands''
         | None \<Rightarrow>
        (case graph_value g n OWL_complementOf of
           Some comp_node \<Rightarrow>
             (case summarize_expression k g comp_node of
                None \<Rightarrow> None
              | Some e \<Rightarrow> Some (PDict [(''exprType'', PStr ''Complement''), (''operand'', e)]))
         | None \<Rightarrow>
        (case graph_value g n OWL_oneOf of
           Some oneof_list \<Rightarrow>
             summarize_list (summarize_expression k g) (rdf_list_to_py k g oneof_list)
               ''OneOf'' ''members''
         | None \<Rightarrow>
             Some (PDict [(''exprType'', PStr ''BNode''), (''props'', props_value (bnode_props g n))]))))))"

subsection \<open>Property characteristics\<close>

definition extract_property_characteristics :: "graph \<Rightarrow> node \<Rightarrow> string list" where
  "extract_property_characteristics g prop =
     (let chars = [];
          chars = (if (prop, RDF_type, OWL_FunctionalProperty) \<in> set g
                   then chars @ [''Functional''] else chars);
          chars = (if (prop, RDF_type, OWL_InverseFunctionalProperty) \<in> set g
                   then chars @ [''InverseFunctional''] else chars);
          chars = (if (prop, RDF_type, OWL_TransitiveProperty) \<in> set g
                   then chars @ [''Transitive''] else chars);
          chars = (if (prop, RDF_type, OWL_SymmetricProperty) \<in> set g
                   then chars @ [''Symmetric''] else chars);
          chars = (if (prop, RDF_type, OWL_AsymmetricProperty) \<in> set g
                   then chars @ [''Asymmetric''] else chars);
          chars = (if (prop, RDF_type, OWL_ReflexiveProperty) \<in> set g
                   then chars @ [''Reflexive''] else chars);
          chars = (if (prop, RDF_type, OWL_IrreflexiveProperty) \<in> set g
                   then chars @ [''Irreflexive''] else chars)
      in chars)"

subsection \<open>Gathering the terms\<close>

text \<open>The record kept for every term, with the fields of the dictionary the source builds.\<close>

record entry =
  iri :: string
  types :: "string list"
  labels :: "string list"
  altLabels :: "string list"
  comments :: "string list"
  annotations :: "(string \<times> pyval list) list"
  domains :: "string list"
  ranges :: "string list"
  subClassOf :: "pyval list"
  equivalentClass :: "pyval list"
  propertyCharacteristics :: "string list"
  subPropertyOf :: "string list"
  inverseOf :: "string list"
  individualTypes :: "string list"

definition new_entry :: "string \<Rightarrow> entry" where
  "new_entry i =
     \<lparr>iri = i, types = [], labels = [], altLabels = [], comments = [], annotations = [],
      domains = [], ranges = [], subClassOf = [], equivalentClass = [],
      propertyCharacteristics = [], subPropertyOf = [], inverseOf = [], individualTypes = []\<rparr>"

text \<open>\<open>for x in xs: if x not in lst: lst.append(x)\<close>\<close>

definition extend_new :: "'a list \<Rightarrow> 'a list \<Rightarrow> 'a list" where
  "extend_new lst xs = fold (\<lambda>x l. append_new l x) xs lst"

text \<open>
  \<open>set(g.subjects(RDF.type, cls))\<close> filtered to named resources. A Python set is iterated
  in an order of its own; the model takes the order of the triples, duplicates removed.
\<close>

definition typed_subjects :: "graph \<Rightarrow> node \<Rightarrow> node list" where
  "typed_subjects g cls = filter is_URIRef (remdups (subjects g RDF_type cls))"

definition in_terms :: "(string \<times> node) list \<Rightarrow> node \<Rightarrow> bool" where
  "in_terms terms s = list_ex (\<lambda>t. snd t = s) terms"

definition add_implicit_class :: "graph \<Rightarrow> node \<Rightarrow> (string \<times> node) list \<Rightarrow> (string \<times> node) list" where
  "add_implicit_class g subj terms =
     (if is_URIRef subj \<and> (has_pred g subj RDFS_subClassOf \<or> has_pred g subj OWL_equivalentClass)
      then (if \<not> in_terms terms subj then terms @ [(''Class'', subj)] else terms)
      else terms)"

definition add_individual :: "graph \<Rightarrow> node \<Rightarrow> (string \<times> node) list \<Rightarrow> (string \<times> node) list" where
  "add_individual g s terms =
     (if is_URIRef s then
        (if in_terms terms s then terms
         else if objects g s RDF_type \<noteq> [] then terms @ [(''Individual'', s)] else terms)
      else terms)"

text \<open>The list \<open>terms\<close> of \<open>gather_terms\<close>: pairs of a category and a node.\<close>

definition discover_terms :: "graph \<Rightarrow> (string \<times> node) list" where
  "discover_terms g =
     (let terms = map (Pair ''Class'') (typed_subjects g OWL_Class);
          terms = fold (add_implicit_class g) (remdups (all_subjects g)) terms;
          terms = terms @ map (Pair ''ObjectProperty'') (typed_subjects g OWL_ObjectProperty);
          terms = terms @ map (Pair ''DatatypeProperty'') (typed_subjects g OWL_DatatypeProperty);
          terms = terms @ map (Pair ''AnnotationProperty'') (typed_subjects g OWL_AnnotationProperty);
          terms = fold (add_individual g) (remdups (subjects_of_pred g RDF_type)) terms
      in terms)"

definition merge_annotation ::
    "string \<times> pyval list \<Rightarrow> (string \<times> pyval list) list \<Rightarrow> (string \<times> pyval list) list" where
  "merge_annotation kv anns =
     (let lst = (case map_of anns (fst kv) of None \<Rightarrow> [] | Some l \<Rightarrow> l)
      in dict_set anns (fst kv) (extend_new lst (snd kv)))"

text \<open>The part of the loop body that every category runs.\<close>

definition merge_common :: "graph \<Rightarrow> string \<Rightarrow> node \<Rightarrow> entry \<Rightarrow> entry" where
  "merge_common g cat n e =
     e\<lparr>types := append_new (types e) cat,
       labels := extend_new (labels e) (get_literals_for_pred g n [RDFS_label, SKOS_prefLabel]),
       altLabels := extend_new (altLabels e) (get_literals_for_pred g n [SKOS_altLabel]),
       comments := extend_new (comments e) (get_literals_for_pred g n [RDFS_comment]),
       annotations := fold merge_annotation (collect_annotations g n) (annotations e)\<rparr>"

definition merge_property :: "graph \<Rightarrow> string \<Rightarrow> node \<Rightarrow> entry \<Rightarrow> entry" where
  "merge_property g cat n e =
     (if cat \<in> set [''ObjectProperty'', ''DatatypeProperty'', ''AnnotationProperty''] then
        e\<lparr>domains := extend_new (domains e) (map pystr (objects g n RDFS_domain)),
          ranges := extend_new (ranges e) (map pystr (objects g n RDFS_range)),
          subPropertyOf := extend_new (subPropertyOf e) (map pystr (objects g n RDFS_subPropertyOf)),
          inverseOf := extend_new (inverseOf e) (map pystr (objects g n OWL_inverseOf)),
          propertyCharacteristics := extract_property_characteristics g n\<rparr>
      else e)"

definition merge_class :: "nat \<Rightarrow> graph \<Rightarrow> string \<Rightarrow> node \<Rightarrow> entry \<Rightarrow> entry option" where
  "merge_class fuel g cat n e =
     (if cat = ''Class'' then
        (case summarize_all (summarize_expression fuel g) (objects g n RDFS_subClassOf) of
           None \<Rightarrow> None
         | Some sups \<Rightarrow>
             (case summarize_all (summarize_expression fuel g) (objects g n OWL_equivalentClass) of
                None \<Rightarrow> None
              | Some eqs \<Rightarrow>
                  Some (e\<lparr>subClassOf := subClassOf e @ sups,
                          equivalentClass := equivalentClass e @ eqs\<rparr>)))
      else Some e)"

definition merge_individual :: "graph \<Rightarrow> string \<Rightarrow> node \<Rightarrow> entry \<Rightarrow> entry" where
  "merge_individual g cat n e =
     (if cat = ''Individual'' then
        e\<lparr>individualTypes := individualTypes e @ map pystr (objects g n RDF_type)\<rparr>
      else e)"

text \<open>One round of the loop over \<open>terms\<close>, on the dictionary \<open>symbol_entries\<close>.\<close>

definition process_term ::
    "nat \<Rightarrow> graph \<Rightarrow> (string \<times> entry) list \<Rightarrow> string \<times> node \<Rightarrow> (string \<times> entry) list option" where
  "process_term fuel g symbol_entries t =
     (let cat = fst t; n = snd t; i = pystr n;
          e = (case map_of symbol_entries i of None \<Rightarrow> new_entry i | Some e \<Rightarrow> e);
          e = merge_property g cat n (merge_common g cat n e)
      in case merge_class fuel g cat n e of
           None \<Rightarrow> None
         | Some e \<Rightarrow> Some (dict_set symbol_entries i (merge_individual g cat n e)))"

fun process_terms ::
    "nat \<Rightarrow> graph \<Rightarrow> (string \<times> entry) list \<Rightarrow> (string \<times> node) list \<Rightarrow> (string \<times> entry) list option" where
  "process_terms fuel g symbol_entries [] = Some symbol_entries"
| "process_terms fuel g symbol_entries (t # ts) =
     (case process_term fuel g symbol_entries t of
        None \<Rightarrow> None
      | Some symbol_entries' \<Rightarrow> process_terms fuel g symbol_entries' ts)"

definition gather_terms :: "nat \<Rightarrow> graph \<Rightarrow> entry list option" where
  "gather_terms fuel g = map_option (map snd) (process_terms fuel g [] (discover_terms g))"

subsection \<open>The command line\<close>

text \<open>
  What a run leaves behind: the argument lists of its \<open>print\<close> calls, its exit status, and
  the output file if one was written (its path and the document dumped into it).
  \<open>parse\<close> is the graph library's parser: \<open>None\<close> is a document it rejects by raising.
  An exception that nothing catches ends the process with status 1.
\<close>

record document =
  sourceFile :: string
  termCount :: nat
  terms :: "entry list"




section \<open>Notions the properties are stated with\<close>

text \<open>The seven recognised capability classes with their tags, in the order of the checks.\<close>

definition characteristic_tags :: "(node \<times> string) list" where
  "characteristic_tags =
     [(OWL_FunctionalProperty, ''Functional''),
      (OWL_InverseFunctionalProperty, ''InverseFunctional''),
      (OWL_TransitiveProperty, ''Transitive''),
      (OWL_SymmetricProperty, ''Symmetric''),
      (OWL_AsymmetricProperty, ''Asymmetric''),
      (OWL_ReflexiveProperty, ''Reflexive''),
      (OWL_IrreflexiveProperty, ''Irreflexive'')]"

text \<open>A property typed transitive, then as an object property, then functional.\<close>

definition example_property :: node where
  "example_property = URIRef ''http://example.org/ancestorOf''"

definition example_property_graph :: graph where
  "example_property_graph =
     [(example_property, RDF_type, OWL_TransitiveProperty),
      (example_property, RDF_type, OWL_ObjectProperty),
      (example_property, RDF_type, OWL_FunctionalProperty)]"

text \<open>
  The shape of a list chain: \<open>list_chain g n xs e\<close> holds when walking from \<open>n\<close> passes links
  that are true values other than \<open>rdf:nil\<close>, whose \<open>rdf:first\<close> values are \<open>xs\<close> in
  order, and ends as \<open>e\<close> says: at \<open>rdf:nil\<close>, at a link with no \<open>rdf:rest\<close> after its
  element, or at a link with no \<open>rdf:first\<close>.
\<close>

datatype ending = Nil_terminated | Rest_missing | First_missing

fun list_chain :: "graph \<Rightarrow> node \<Rightarrow> node list \<Rightarrow> ending \<Rightarrow> bool" where
  "list_chain g n [] e =
     (case e of
        Nil_terminated \<Rightarrow> n = RDF_nil
      | Rest_missing \<Rightarrow> False
      | First_missing \<Rightarrow> truthy n \<and> n \<noteq> RDF_nil \<and> graph_value g n RDF_first = None)"
| "list_chain g n (x # xs) e =
     (truthy n \<and> n \<noteq> RDF_nil \<and> graph_value g n RDF_first = Some x \<and>
      (case graph_value g n RDF_rest of
         None \<Rightarrow> xs = [] \<and> e = Rest_missing
       | Some n' \<Rightarrow> list_chain g n' xs e))"

text \<open>Three lists: a well-formed one, one that lacks its last rest link, one whose second link has no element.\<close>

definition example_list_graph :: graph where
  "example_list_graph =
     [(BNode ''l1'', RDF_first, URIRef ''Cat''),
      (BNode ''l1'', RDF_rest, BNode ''l2''),
      (BNode ''l2'', RDF_first, URIRef ''Dog''),
      (BNode ''l2'', RDF_rest, RDF_nil),
      (BNode ''t1'', RDF_first, URIRef ''Cat''),
      (BNode ''t1'', RDF_rest, BNode ''t2''),
      (BNode ''t2'', RDF_first, URIRef ''Dog''),
      (BNode ''u1'', RDF_first, URIRef ''Cat''),
      (BNode ''u1'', RDF_rest, BNode ''u2''),
      (BNode ''u2'', RDF_rest, RDF_nil)]"

text \<open>\<open>d.get(k)\<close> on a value; \<open>None\<close> when the value is no dictionary or lacks the key.\<close>

fun dict_get :: "pyval \<Rightarrow> string \<Rightarrow> pyval option" where
  "dict_get (PDict d) k = map_of d k"
| "dict_get v k = None"

text \<open>The string forms of the objects a node has under the predicates whose string form is \<open>key\<close>, in store order.\<close>

definition grouped_objects :: "graph \<Rightarrow> node \<Rightarrow> string \<Rightarrow> pyval list" where
  "grouped_objects g n key =
     map (\<lambda>po. fq (Some (snd po))) (filter (\<lambda>po. pystr (fst po) = key) (predicate_objects g n))"

text \<open>
  The classification by priority: named resource, literal, then for an anonymous node the
  first of restriction, intersection, union, complement and enumeration that applies, then
  the plain anonymous node; any other value is unknown.
\<close>

definition expr_type :: "graph \<Rightarrow> node \<Rightarrow> string" where
  "expr_type g n =
     (if is_URIRef n then ''Named''
      else if is_Literal n then ''Literal''
      else if is_BNode n \<and> is_restriction g n then ''Restriction''
      else if is_BNode n \<and> graph_value g n OWL_intersectionOf \<noteq> None then ''Intersection''
      else if is_BNode n \<and> graph_value g n OWL_unionOf \<noteq> None then ''Union''
      else if is_BNode n \<and> graph_value g n OWL_complementOf \<noteq> None then ''Complement''
      else if is_BNode n \<and> graph_value g n OWL_oneOf \<noteq> None then ''OneOf''
      else if is_BNode n then ''BNode''
      else ''Unknown'')"

text \<open>One round of the grouping loop of \<open>bnode_props\<close>.\<close>

definition group_step :: "(node \<times> node) \<Rightarrow> (string \<times> pyval list) list \<Rightarrow> (string \<times> pyval list) list" where
  "group_step po props = setdefault_append props (pystr (fst po)) (fq (Some (snd po)))"

text \<open>
  An anonymous class with both a union list and a complement, and a plain anonymous node.
\<close>

definition example_union_graph :: graph where
  "example_union_graph =
     [(URIRef ''ex:Pet'', OWL_equivalentClass, BNode ''u''),
      (BNode ''u'', OWL_unionOf, BNode ''l1''),
      (BNode ''u'', OWL_complementOf, URIRef ''ex:Fish''),
      (BNode ''l1'', RDF_first, URIRef ''ex:Cat''),
      (BNode ''l1'', RDF_rest, BNode ''l2''),
      (BNode ''l2'', RDF_first, URIRef ''ex:Dog''),
      (BNode ''l2'', RDF_rest, RDF_nil),
      (BNode ''x'', URIRef ''ex:note'', Literal ''a'' None (Some ''en'') True),
      (BNode ''x'', URIRef ''ex:seeAlso'', URIRef ''ex:Cat''),
      (BNode ''x'', URIRef ''ex:note'', Literal ''b'' None None True)]"

text \<open>A restriction with a class filler and a cardinality, in this order of triples.\<close>

definition example_restriction_graph :: graph where
  "example_restriction_graph =
     [(URIRef ''ex:Dog'', RDFS_subClassOf, BNode ''r''),
      (BNode ''r'', RDF_type, OWL_Restriction),
      (BNode ''r'', OWL_onProperty, URIRef ''ex:hasOwner''),
      (BNode ''r'', OWL_cardinality, Literal ''1'' (Some ''http://www.w3.org/2001/XMLSchema#nonNegativeInteger'') None True),
      (BNode ''r'', OWL_someValuesFrom, URIRef ''ex:Person'')]"

text \<open>A self-restriction: none of the nine recognised fillers.\<close>

definition example_hasSelf_graph :: graph where
  "example_hasSelf_graph =
     [(BNode ''s'', RDF_type, OWL_Restriction),
      (BNode ''s'', OWL_onProperty, URIRef ''ex:likes''),
      (BNode ''s'', URIRef ''http://www.w3.org/2002/07/owl#hasSelf'',
         Literal ''true'' (Some ''http://www.w3.org/2001/XMLSchema#boolean'') None True)]"

text \<open>Two nodes typed as restrictions with no \<open>owl:onProperty\<close>.\<close>

definition example_bare_restriction_graph :: graph where
  "example_bare_restriction_graph =
     [(BNode ''e'', RDF_type, OWL_Restriction),
      (BNode ''e'', OWL_allValuesFrom, URIRef ''ex:Person''),
      (BNode ''f'', RDF_type, OWL_Restriction)]"

text \<open>The keys of a record that are filler fields.\<close>

definition filler_fields :: "pyval \<Rightarrow> string list" where
  "filler_fields r =
     (case r of PDict d \<Rightarrow> filter (\<lambda>key. key \<in> set (map snd filler_preds)) (map fst d) | _ \<Rightarrow> [])"


text \<open>A class with a label, and a property with an inverse.\<close>

definition example_label_graph :: graph where
  "example_label_graph =
     [(URIRef ''ex:Dog'', RDF_type, OWL_Class),
      (URIRef ''ex:Dog'', RDFS_label, Literal ''Dog'' None (Some ''en'') True),
      (URIRef ''ex:owns'', RDF_type, OWL_ObjectProperty),
      (URIRef ''ex:owns'', OWL_inverseOf, URIRef ''ex:ownedBy'')]"

text \<open>The objects a subject has under the predicates of a given string form that the collector keeps.\<close>

definition kept_objects :: "graph \<Rightarrow> node \<Rightarrow> string \<Rightarrow> pyval list" where
  "kept_objects g s key =
     map (\<lambda>po. fq (Some (snd po)))
       (filter (\<lambda>po. fst po \<notin> set structural_preds \<and> pystr (fst po) = key)
          (predicate_objects g s))"

definition annotate_step :: "(node \<times> node) \<Rightarrow> (string \<times> pyval list) list \<Rightarrow> (string \<times> pyval list) list" where
  "annotate_step po ann =
     (if fst po \<in> set structural_preds then ann
      else setdefault_append ann (pystr (fst po)) (fq (Some (snd po))))"

text \<open>The discovery criteria and the roles they give a node.\<close>

definition class_like :: "graph \<Rightarrow> node \<Rightarrow> bool" where
  "class_like g n =
     ((n, RDF_type, OWL_Class) \<in> set g \<or> has_pred g n RDFS_subClassOf \<or>
      has_pred g n OWL_equivalentClass)"

definition explicit_roles :: "graph \<Rightarrow> node \<Rightarrow> string list" where
  "explicit_roles g n =
     (if class_like g n then [''Class''] else []) @
     (if (n, RDF_type, OWL_ObjectProperty) \<in> set g then [''ObjectProperty''] else []) @
     (if (n, RDF_type, OWL_DatatypeProperty) \<in> set g then [''DatatypeProperty''] else []) @
     (if (n, RDF_type, OWL_AnnotationProperty) \<in> set g then [''AnnotationProperty''] else [])"

definition term_roles :: "graph \<Rightarrow> node \<Rightarrow> string list" where
  "term_roles g n =
     (if explicit_roles g n \<noteq> [] then explicit_roles g n
      else if has_pred g n RDF_type then [''Individual''] else [])"

definition discovered :: "graph \<Rightarrow> node \<Rightarrow> bool" where
  "discovered g n = (is_URIRef n \<and> (class_like g n \<or> has_pred g n RDF_type))"

text \<open>The value of a list field of the entry stored under a key, empty when there is none.\<close>

definition field_at :: "(entry \<Rightarrow> 'a list) \<Rightarrow> (string \<times> entry) list \<Rightarrow> string \<Rightarrow> 'a list" where
  "field_at f es i = (case map_of es i of None \<Rightarrow> [] | Some e \<Rightarrow> f e)"

text \<open>The five stages of the list of terms.\<close>

definition class_terms :: "graph \<Rightarrow> (string \<times> node) list" where
  "class_terms g =
     fold (add_implicit_class g) (remdups (all_subjects g))
       (map (Pair ''Class'') (typed_subjects g OWL_Class))"

definition declared_terms :: "graph \<Rightarrow> (string \<times> node) list" where
  "declared_terms g =
     class_terms g @ map (Pair ''ObjectProperty'') (typed_subjects g OWL_ObjectProperty)
       @ map (Pair ''DatatypeProperty'') (typed_subjects g OWL_DatatypeProperty)
       @ map (Pair ''AnnotationProperty'') (typed_subjects g OWL_AnnotationProperty)"

text \<open>
  What one round of the loop appends to \<open>subClassOf\<close> (for \<open>p = rdfs:subClassOf\<close>) or to
  \<open>equivalentClass\<close>: the summaries of the node's objects, in the class role only.
\<close>

definition summaries :: "nat \<Rightarrow> graph \<Rightarrow> node \<Rightarrow> string \<times> node \<Rightarrow> pyval list" where
  "summaries fuel g p t =
     (if fst t = ''Class'' then
        (case summarize_all (summarize_expression fuel g) (objects g (snd t) p) of
           None \<Rightarrow> [] | Some es \<Rightarrow> es)
      else [])"

definition entry_or_new :: "(string \<times> entry) list \<Rightarrow> string \<Rightarrow> entry" where
  "entry_or_new es i = (case map_of es i of None \<Rightarrow> new_entry i | Some e \<Rightarrow> e)"

definition keyed :: "(string \<times> entry) list \<Rightarrow> bool" where
  "keyed es = (distinct (map fst es) \<and> list_all (\<lambda>ie. iri (snd ie) = fst ie) es)"

text \<open>A class with two anonymous superclasses that are the same restriction.\<close>

definition example_twin_graph :: graph where
  "example_twin_graph =
     [(URIRef ''ex:Dog'', RDFS_subClassOf, BNode ''r1''),
      (URIRef ''ex:Dog'', RDFS_subClassOf, BNode ''r2''),
      (BNode ''r1'', OWL_onProperty, URIRef ''ex:hasOwner''),
      (BNode ''r1'', OWL_someValuesFrom, URIRef ''ex:Person''),
      (BNode ''r2'', OWL_onProperty, URIRef ''ex:hasOwner''),
      (BNode ''r2'', OWL_someValuesFrom, URIRef ''ex:Person'')]"

definition example_twin_summary :: pyval where
  "example_twin_summary =
     PDict [(''exprType'', PStr ''Restriction''), (''onProperty'', PStr ''ex:hasOwner''),
            (''someValuesFrom'', PDict [(''exprType'', PStr ''Named''), (''iri'', PStr ''ex:Person'')])]"

definition example_twin_entry :: entry where
  "example_twin_entry =
     \<lparr>iri = ''ex:Dog'', types = [''Class''], labels = [], altLabels = [], comments = [],
      annotations = [], domains = [], ranges = [],
      subClassOf = [example_twin_summary, example_twin_summary], equivalentClass = [],
      propertyCharacteristics = [], subPropertyOf = [], inverseOf = [], individualTypes = []\<rparr>"

text \<open>
  A resource typed as a class and as an object property that is also a subclass, and an
  individual of it.
\<close>

definition example_roles_graph :: graph where
  "example_roles_graph =
     [(URIRef ''ex:A'', RDF_type, OWL_Class),
      (URIRef ''ex:A'', RDF_type, OWL_ObjectProperty),
      (URIRef ''ex:A'', RDFS_subClassOf, URIRef ''ex:B''),
      (URIRef ''ex:F'', RDF_type, URIRef ''ex:A'')]"

text \<open>
  The links the summarizer and the list walks follow: the nine filler predicates, the three
  list-valued constructors, the complement, and the two list predicates.
\<close>

definition link_preds :: "node list" where
  "link_preds =
     map fst filler_preds @
     [OWL_intersectionOf, OWL_unionOf, OWL_complementOf, OWL_oneOf, RDF_first, RDF_rest]"

definition links :: "graph \<Rightarrow> (node \<times> node) set" where
  "links g = set (map (\<lambda>t. (fst t, snd (snd t))) (filter (\<lambda>t. fst (snd t) \<in> set link_preds) g))"

text \<open>A cyclic list: the rest of its only link is the link itself.\<close>

definition example_cyclic_graph :: graph where
  "example_cyclic_graph =
     [(BNode ''c'', RDF_first, URIRef ''ex:Cat''),
      (BNode ''c'', RDF_rest, BNode ''c'')]"

text \<open>A rank that falls along every link of the union example.\<close>

fun example_rank :: "node \<Rightarrow> nat" where
  "example_rank (BNode b) = (if b = ''u'' then 3 else if b = ''l1'' then 2 else if b = ''l2'' then 1 else 0)"
| "example_rank n = 0"

text \<open>A rank that falls along every link out of an anonymous node into a named one.\<close>

fun bnode_rank :: "node \<Rightarrow> nat" where
  "bnode_rank (BNode b) = 1"
| "bnode_rank n = 0"

section \<open>Properties\<close>

lemmas vocab_defs = RDF_type_def RDF_first_def RDF_rest_def RDF_nil_def RDFS_subClassOf_def
   RDFS_domain_def RDFS_range_def RDFS_subPropertyOf_def RDFS_label_def RDFS_comment_def
   SKOS_prefLabel_def SKOS_altLabel_def OWL_Class_def OWL_ObjectProperty_def
   OWL_DatatypeProperty_def OWL_AnnotationProperty_def OWL_equivalentClass_def
   OWL_inverseOf_def OWL_Restriction_def OWL_onProperty_def OWL_someValuesFrom_def
   OWL_allValuesFrom_def OWL_hasValue_def OWL_minQualifiedCardinality_def
   OWL_maxQualifiedCardinality_def OWL_qualifiedCardinality_def OWL_minCardinality_def
   OWL_maxCardinality_def OWL_cardinality_def OWL_intersectionOf_def OWL_unionOf_def
   OWL_complementOf_def OWL_oneOf_def OWL_FunctionalProperty_def
   OWL_InverseFunctionalProperty_def OWL_TransitiveProperty_def OWL_SymmetricProperty_def
   OWL_AsymmetricProperty_def OWL_ReflexiveProperty_def OWL_IrreflexiveProperty_def

subsection \<open>Property characteristics\<close>

lemma characteristics_filter:
  "extract_property_characteristics g prop =
     map snd (filter (\<lambda>ct. (prop, RDF_type, fst ct) \<in> set g) characteristic_tags)"
  by (simp add: extract_property_characteristics_def characteristic_tags_def Let_def)

lemma characteristic_classes_distinct: "distinct (map fst characteristic_tags)"
  by (simp add: characteristic_tags_def OWL_FunctionalProperty_def
      OWL_InverseFunctionalProperty_def OWL_TransitiveProperty_def OWL_SymmetricProperty_def
      OWL_AsymmetricProperty_def OWL_ReflexiveProperty_def OWL_IrreflexiveProperty_def)

text \<open>
  Claim C8. For every property node the characteristics are the tags, out of the seven taken
  in the fixed order of the checks, whose typing triple is in the graph; the result depends
  on the set of triples only, not on their order; and a property typed functional and
  transitive, and by none of the other five classes, yields exactly
  \<open>[''Functional'', ''Transitive'']\<close>.
\<close>

theorem extract_property_characteristics_order:
  "extract_property_characteristics g prop =
     map snd (filter (\<lambda>ct. (prop, RDF_type, fst ct) \<in> set g) characteristic_tags)
   \<and> (set g' = set g \<longrightarrow>
        extract_property_characteristics g' prop = extract_property_characteristics g prop)
   \<and> ((\<forall>ct \<in> set characteristic_tags.
          ((prop, RDF_type, fst ct) \<in> set g) =
          (fst ct = OWL_FunctionalProperty \<or> fst ct = OWL_TransitiveProperty)) \<longrightarrow>
        extract_property_characteristics g prop = [''Functional'', ''Transitive''])"
proof (intro conjI impI)
  show "extract_property_characteristics g prop =
     map snd (filter (\<lambda>ct. (prop, RDF_type, fst ct) \<in> set g) characteristic_tags)"
    by (rule characteristics_filter)
next
  assume "set g' = set g"
  then show "extract_property_characteristics g' prop = extract_property_characteristics g prop"
    by (simp add: characteristics_filter)
next
  assume only: "\<forall>ct \<in> set characteristic_tags.
          ((prop, RDF_type, fst ct) \<in> set g) =
          (fst ct = OWL_FunctionalProperty \<or> fst ct = OWL_TransitiveProperty)"
  have "filter (\<lambda>ct. (prop, RDF_type, fst ct) \<in> set g) characteristic_tags =
        filter (\<lambda>ct. fst ct = OWL_FunctionalProperty \<or> fst ct = OWL_TransitiveProperty)
          characteristic_tags"
    using only by (intro filter_cong) auto
  also have "\<dots> = [(OWL_FunctionalProperty, ''Functional''), (OWL_TransitiveProperty, ''Transitive'')]"
    using characteristic_classes_distinct by (auto simp add: characteristic_tags_def)
  finally show "extract_property_characteristics g prop = [''Functional'', ''Transitive'']"
    by (simp add: characteristics_filter)
qed

theorem extract_property_characteristics_order_witness:
  "extract_property_characteristics example_property_graph example_property =
     [''Functional'', ''Transitive'']"
proof -
  have "\<forall>ct \<in> set characteristic_tags.
          ((example_property, RDF_type, fst ct) \<in> set example_property_graph) =
          (fst ct = OWL_FunctionalProperty \<or> fst ct = OWL_TransitiveProperty)"
    by (simp add: characteristic_tags_def example_property_graph_def example_property_def
      RDF_type_def OWL_ObjectProperty_def OWL_FunctionalProperty_def
      OWL_InverseFunctionalProperty_def OWL_TransitiveProperty_def OWL_SymmetricProperty_def
      OWL_AsymmetricProperty_def OWL_ReflexiveProperty_def OWL_IrreflexiveProperty_def)
  with extract_property_characteristics_order [of example_property_graph example_property]
  show ?thesis by blast
qed

subsection \<open>The manual list walk\<close>

lemma manual_walk_chain_items:
  "list_chain g n xs e \<Longrightarrow> length xs < fuel \<Longrightarrow>
   manual_walk fuel g n items = Some (items @ xs)"
proof (induction xs arbitrary: n fuel items)
  case Nil
  then obtain k where k: "fuel = Suc k" by (cases fuel) auto
  from Nil(1) show ?case unfolding k by (cases e) auto
next
  case (Cons x xs)
  then obtain k where k: "fuel = Suc k" by (cases fuel) auto
  from Cons.prems have head: "truthy n" "n \<noteq> RDF_nil" "graph_value g n RDF_first = Some x"
    by auto
  show ?case
  proof (cases "graph_value g n RDF_rest")
    case None
    with Cons.prems have "xs = []" by simp
    with None head show ?thesis unfolding k by simp
  next
    case (Some n')
    with Cons.prems have "list_chain g n' xs e" by simp
    moreover from Cons.prems k have "length xs < k" by simp
    ultimately have "manual_walk k g n' (items @ [x]) = Some ((items @ [x]) @ xs)"
      by (rule Cons.IH)
    with Some head show ?thesis unfolding k by simp
  qed
qed

text \<open>
  Claim C6. On a chain of links that ends at \<open>rdf:nil\<close> after N elements, the manual walk
  returns exactly the N elements in order; on a chain whose rest link is missing after k
  elements, or whose link after the k-th has no first value, it returns exactly the first k
  elements. It returns a sequence in each case, for any fuel above the number of elements.
  Started with items already collected, it appends the elements to them.
\<close>

theorem manual_walk_chain:
  "list_chain g n xs e \<Longrightarrow> length xs < fuel \<Longrightarrow>
   manual_walk fuel g n [] = Some xs \<and> manual_walk fuel g n items = Some (items @ xs)"
  using manual_walk_chain_items [of g n xs e fuel "[]"]
    manual_walk_chain_items [of g n xs e fuel items]
  by simp

theorem manual_walk_chain_witness:
  "manual_walk 3 example_list_graph (BNode ''l1'') [] = Some [URIRef ''Cat'', URIRef ''Dog'']
   \<and> manual_walk 5 example_list_graph (BNode ''t1'') [] = Some [URIRef ''Cat'', URIRef ''Dog'']
   \<and> manual_walk 2 example_list_graph (BNode ''u1'') [] = Some [URIRef ''Cat'']"
proof (intro conjI)
  have "list_chain example_list_graph (BNode ''l1'') [URIRef ''Cat'', URIRef ''Dog''] Nil_terminated"
    by (simp add: example_list_graph_def graph_value_def objects_def vocab_defs)
  then show "manual_walk 3 example_list_graph (BNode ''l1'') [] = Some [URIRef ''Cat'', URIRef ''Dog'']"
    by (rule manual_walk_chain [THEN conjunct1]) simp
next
  have "list_chain example_list_graph (BNode ''t1'') [URIRef ''Cat'', URIRef ''Dog''] Rest_missing"
    by (simp add: example_list_graph_def graph_value_def objects_def vocab_defs)
  then show "manual_walk 5 example_list_graph (BNode ''t1'') [] = Some [URIRef ''Cat'', URIRef ''Dog'']"
    by (rule manual_walk_chain [THEN conjunct1]) simp
next
  have "list_chain example_list_graph (BNode ''u1'') [URIRef ''Cat''] First_missing"
    by (simp add: example_list_graph_def graph_value_def objects_def vocab_defs)
  then show "manual_walk 2 example_list_graph (BNode ''u1'') [] = Some [URIRef ''Cat'']"
    by (rule manual_walk_chain [THEN conjunct1]) simp
qed

subsection \<open>Dictionaries\<close>

lemma map_of_dict_set: "map_of (dict_set d k v) = (map_of d)(k \<mapsto> v)"
  by (induction d) (auto simp add: fun_eq_iff)

lemma keys_dict_set:
  "map fst (dict_set d k v) = (if k \<in> set (map fst d) then map fst d else map fst d @ [k])"
  by (induction d) (force simp add: image_iff)+

lemma map_of_setdefault_append:
  "map_of (setdefault_append d k v) =
     (map_of d)(k \<mapsto> (case map_of d k of None \<Rightarrow> [v] | Some vs \<Rightarrow> vs @ [v]))"
  by (induction d) (auto simp add: fun_eq_iff)

lemma keys_setdefault_append:
  "map fst (setdefault_append d k v) =
     (if k \<in> set (map fst d) then map fst d else map fst d @ [k])"
  by (induction d) (force simp add: image_iff)+

lemma distinct_setdefault_append:
  "distinct (map fst d) \<Longrightarrow> distinct (map fst (setdefault_append d k v))"
  by (simp add: keys_setdefault_append)

lemma group_step_distinct:
  "distinct (map fst d) \<Longrightarrow> distinct (map fst (group_step po d))"
  by (simp add: group_step_def distinct_setdefault_append)

lemma map_of_group_step:
  "map_of (group_step po d) key =
     (if pystr (fst po) = key
      then Some ((case map_of d key of None \<Rightarrow> [] | Some vs \<Rightarrow> vs) @ [fq (Some (snd po))])
      else map_of d key)"
  by (simp add: group_step_def map_of_setdefault_append split: option.splits)

lemma fold_group_distinct:
  "distinct (map fst d) \<Longrightarrow> distinct (map fst (fold group_step pos d))"
  by (induction pos arbitrary: d) (simp_all add: group_step_distinct)

lemma fold_group_map_of:
  "map_of (fold group_step pos d) key =
     (let old = (case map_of d key of None \<Rightarrow> [] | Some vs \<Rightarrow> vs);
          new = map (\<lambda>po. fq (Some (snd po))) (filter (\<lambda>po. pystr (fst po) = key) pos)
      in if map_of d key = None \<and> new = [] then None else Some (old @ new))"
proof (induction pos arbitrary: d)
  case Nil
  then show ?case by (simp add: Let_def split: option.splits)
next
  case (Cons po pos)
  show ?case
    by (simp add: Cons.IH map_of_group_step Let_def split: option.splits)
qed

lemma bnode_props_fold: "bnode_props g n = fold group_step (predicate_objects g n) []"
proof -
  have "(\<lambda>(p, ob) props. setdefault_append props (pystr p) (fq (Some ob))) = group_step"
    by (simp add: fun_eq_iff group_step_def)
  then show ?thesis by (simp add: bnode_props_def)
qed

lemma bnode_props_distinct: "distinct (map fst (bnode_props g n))"
  by (simp add: bnode_props_fold fold_group_distinct)

lemma bnode_props_grouped:
  "map_of (bnode_props g n) key =
     (if grouped_objects g n key = [] then None else Some (grouped_objects g n key))"
  by (simp add: bnode_props_fold fold_group_map_of grouped_objects_def Let_def)

subsection \<open>Queries\<close>

lemma set_objects: "set (objects g s p) = {ob. (s, p, ob) \<in> set g}"
  by (auto simp add: objects_def image_iff)

lemma has_pred_iff: "has_pred g s p = (\<exists>ob. (s, p, ob) \<in> set g)"
  unfolding has_pred_def using set_objects [of g s p] by (cases "objects g s p") auto

lemma set_subjects: "set (subjects g p ob) = {s. (s, p, ob) \<in> set g}"
  by (auto simp add: subjects_def image_iff)

lemma set_subjects_of_pred: "set (subjects_of_pred g p) = {s. has_pred g s p}"
  by (auto simp add: subjects_of_pred_def has_pred_iff image_iff)

lemma has_pred_subject: "has_pred g s p \<Longrightarrow> s \<in> set (all_subjects g)"
  by (force simp add: has_pred_iff all_subjects_def)

lemma set_typed_subjects:
  "set (typed_subjects g c) = {s. is_URIRef s \<and> (s, RDF_type, c) \<in> set g}"
  by (auto simp add: typed_subjects_def set_subjects)

lemma distinct_typed_subjects: "distinct (typed_subjects g c)"
  by (simp add: typed_subjects_def)

lemma typed_has_type: "(s, RDF_type, c) \<in> set g \<Longrightarrow> has_pred g s RDF_type"
  by (auto simp add: has_pred_iff)

subsection \<open>The loop over the filler predicates\<close>

lemma fold_add_filler_None: "fold (add_filler rec g n) ps None = None"
  by (induction ps) (simp_all add: add_filler_def)

lemma add_filler_Some:
  "add_filler rec g n pk (Some d) = Some d' \<Longrightarrow>
   (graph_value g n (fst pk) = None \<and> d' = d) \<or>
   (\<exists>val e. graph_value g n (fst pk) = Some val \<and> d' = dict_set d (snd pk) e \<and>
      (if is_BNode val \<or> is_URIRef val then rec val = Some e else e = fq (Some val)))"
  by (auto simp add: add_filler_def split: option.splits if_splits)

lemma fold_add_filler_keys:
  "fold (add_filler rec g n) ps (Some d) = Some d' \<Longrightarrow>
   distinct (map snd ps) \<Longrightarrow> set (map snd ps) \<inter> set (map fst d) = {} \<Longrightarrow>
   map fst d' = map fst d @ map snd (filter (\<lambda>pk. graph_value g n (fst pk) \<noteq> None) ps)"
proof (induction ps arbitrary: d)
  case Nil
  then show ?case by simp
next
  case (Cons pk ps)
  from Cons.prems(1) obtain d1 where d1: "add_filler rec g n pk (Some d) = Some d1"
    and rest: "fold (add_filler rec g n) ps (Some d1) = Some d'"
    by (cases "add_filler rec g n pk (Some d)") (auto simp add: fold_add_filler_None)
  from add_filler_Some [OF d1] show ?case
  proof (elim disjE conjE exE)
    assume "graph_value g n (fst pk) = None" "d1 = d"
    with Cons.IH [of d] rest Cons.prems(2,3) show ?thesis by auto
  next
    fix val e
    assume v: "graph_value g n (fst pk) = Some val" and d1': "d1 = dict_set d (snd pk) e"
    from Cons.prems(3) have notin: "snd pk \<notin> set (map fst d)" by auto
    then have keys1: "map fst d1 = map fst d @ [snd pk]"
      by (simp add: d1' keys_dict_set)
    have "set (map snd ps) \<inter> set (map fst d1) = {}"
      using Cons.prems(2,3) keys1 by auto
    with Cons.IH [of d1] rest Cons.prems(2)
    have "map fst d' =
        map fst d1 @ map snd (filter (\<lambda>pk. graph_value g n (fst pk) \<noteq> None) ps)"
      by simp
    with keys1 v show ?thesis by simp
  qed
qed

lemma fold_add_filler_old:
  "fold (add_filler rec g n) ps (Some d) = Some d' \<Longrightarrow> key \<notin> set (map snd ps) \<Longrightarrow>
   map_of d' key = map_of d key"
proof (induction ps arbitrary: d)
  case Nil
  then show ?case by simp
next
  case (Cons pk ps)
  from Cons.prems(1) obtain d1 where d1: "add_filler rec g n pk (Some d) = Some d1"
    and rest: "fold (add_filler rec g n) ps (Some d1) = Some d'"
    by (cases "add_filler rec g n pk (Some d)") (auto simp add: fold_add_filler_None)
  from add_filler_Some [OF d1] Cons.prems(2) have "map_of d1 key = map_of d key"
    by (auto simp add: map_of_dict_set)
  with Cons.IH [OF rest] Cons.prems(2) show ?case by simp
qed

lemma fold_add_filler_value:
  "fold (add_filler rec g n) ps (Some d) = Some d' \<Longrightarrow> distinct (map snd ps) \<Longrightarrow>
   pk \<in> set ps \<Longrightarrow> graph_value g n (fst pk) = Some val \<Longrightarrow>
   map_of d' (snd pk) =
     (if is_BNode val \<or> is_URIRef val then rec val else Some (fq (Some val)))"
proof (induction ps arbitrary: d)
  case Nil
  then show ?case by simp
next
  case (Cons qk ps)
  from Cons.prems(1) obtain d1 where d1: "add_filler rec g n qk (Some d) = Some d1"
    and rest: "fold (add_filler rec g n) ps (Some d1) = Some d'"
    by (cases "add_filler rec g n qk (Some d)") (auto simp add: fold_add_filler_None)
  show ?case
  proof (cases "pk \<in> set ps")
    case True
    with Cons.IH [OF rest] Cons.prems show ?thesis by simp
  next
    case False
    with Cons.prems(3) have eq: "qk = pk" by simp
    from False Cons.prems(2) eq have "snd pk \<notin> set (map snd ps)" by auto
    with fold_add_filler_old [OF rest] have "map_of d' (snd pk) = map_of d1 (snd pk)" by simp
    moreover from add_filler_Some [OF d1] Cons.prems(4) eq
    have "map_of d1 (snd pk) =
        (if is_BNode val \<or> is_URIRef val then rec val else Some (fq (Some val)))"
      by (auto simp add: map_of_dict_set split: if_splits)
    ultimately show ?thesis by simp
  qed
qed

lemma fold_add_filler_absent:
  "\<forall>pk \<in> set ps. graph_value g n (fst pk) = None \<Longrightarrow>
   fold (add_filler rec g n) ps (Some d) = Some d"
  by (induction ps) (simp_all add: add_filler_def)

lemma filler_keys_distinct: "distinct (map snd filler_preds)"
  by (simp add: filler_preds_def)

lemma filler_keys:
  "set (map snd filler_preds) \<inter> {''exprType'', ''onProperty''} = {}"
  by (simp add: filler_preds_def)

subsection \<open>More fuel changes no result\<close>

lemma graph_items_mono:
  "graph_items F g l c i = Some r \<Longrightarrow> F \<le> F' \<Longrightarrow> graph_items F' g l c i = Some r"
proof (induction F arbitrary: F' l c i)
  case 0
  then show ?case by simp
next
  case (Suc k)
  from Suc.prems(2) obtain k' where F': "F' = Suc k'" and le: "k \<le> k'"
    by (cases F') auto
  show ?case
  proof (cases l)
    case None
    with Suc.prems(1) show ?thesis unfolding F' by simp
  next
    case (Some x)
    show ?thesis
    proof (cases "truthy x \<and> graph_value g x RDF_rest \<notin> set c")
      case False
      with Suc.prems(1) Some show ?thesis unfolding F' by (auto simp add: Let_def)
    next
      case True
      let ?items = "case graph_value g x RDF_first of None \<Rightarrow> i | Some item \<Rightarrow> i @ [item]"
      let ?nxt = "graph_value g x RDF_rest"
      from Suc.prems(1) Some True
      have "graph_items k g ?nxt (c @ [?nxt]) ?items = Some r" by (simp add: Let_def)
      from Suc.IH [OF this le] Some True show ?thesis unfolding F' by (simp add: Let_def)
    qed
  qed
qed

lemma manual_walk_mono:
  "manual_walk F g cur i = Some r \<Longrightarrow> F \<le> F' \<Longrightarrow> manual_walk F' g cur i = Some r"
proof (induction F arbitrary: F' cur i)
  case 0
  then show ?case by simp
next
  case (Suc k)
  from Suc.prems(2) obtain k' where F': "F' = Suc k'" and le: "k \<le> k'"
    by (cases F') auto
  show ?case
  proof (cases "truthy cur \<and> cur \<noteq> RDF_nil")
    case False
    with Suc.prems(1) show ?thesis unfolding F' by auto
  next
    case True
    show ?thesis
    proof (cases "graph_value g cur RDF_first")
      case None
      with Suc.prems(1) True show ?thesis unfolding F' by simp
    next
      case first: (Some x)
      show ?thesis
      proof (cases "graph_value g cur RDF_rest")
        case None
        with Suc.prems(1) True first show ?thesis unfolding F' by simp
      next
        case (Some y)
        with Suc.prems(1) True first have "manual_walk k g y (i @ [x]) = Some r" by simp
        from Suc.IH [OF this le] True first Some show ?thesis unfolding F' by simp
      qed
    qed
  qed
qed

lemma rdf_list_to_py_mono:
  assumes "rdf_list_to_py F g n = Some r" and "F \<le> F'"
  shows "rdf_list_to_py F' g n = Some r"
proof -
  from assms(1) obtain items raised where
    h: "graph_items F g (Some n) [Some n] [] = Some (items, raised)"
    and m: "(if raised then manual_walk F g n items else Some items) = Some r"
    by (auto simp add: rdf_list_to_py_def split: option.splits)
  from graph_items_mono [OF h assms(2)]
  have h': "graph_items F' g (Some n) [Some n] [] = Some (items, raised)" .
  show ?thesis
  proof (cases raised)
    case True
    with m have "manual_walk F g n items = Some r" by simp
    from manual_walk_mono [OF this assms(2)] True h' show ?thesis
      by (simp add: rdf_list_to_py_def)
  next
    case False
    with m h' show ?thesis by (simp add: rdf_list_to_py_def)
  qed
qed

lemma summarize_all_mono:
  "summarize_all rec xs = Some es \<Longrightarrow> (\<And>x e. rec x = Some e \<Longrightarrow> rec' x = Some e) \<Longrightarrow>
   summarize_all rec' xs = Some es"
proof (induction xs arbitrary: es)
  case Nil
  then show ?case by simp
next
  case (Cons x xs)
  from Cons.prems(1) obtain e es1 where e: "rec x = Some e"
    and es1: "summarize_all rec xs = Some es1" and es: "es = e # es1"
    by (auto split: option.splits)
  from Cons.IH [OF es1 Cons.prems(2)] Cons.prems(2) [OF e] es show ?case by simp
qed

lemma summarize_list_mono:
  assumes "summarize_list rec items tag field = Some r"
    and "\<And>x e. rec x = Some e \<Longrightarrow> rec' x = Some e"
    and "\<And>xs. items = Some xs \<Longrightarrow> items' = Some xs"
  shows "summarize_list rec' items' tag field = Some r"
proof -
  from assms(1) obtain xs es where xs: "items = Some xs"
    and es: "summarize_all rec xs = Some es"
    and r: "r = PDict [(''exprType'', PStr tag), (field, PList es)]"
    by (auto simp add: summarize_list_def split: option.splits)
  from summarize_all_mono [OF es assms(2)] assms(3) [OF xs] r show ?thesis
    by (simp add: summarize_list_def)
qed

lemma add_filler_mono:
  assumes "add_filler rec g n pk acc = Some d"
    and "\<And>x e. rec x = Some e \<Longrightarrow> rec' x = Some e"
  shows "add_filler rec' g n pk acc = Some d"
proof -
  from assms(1) obtain d0 where acc: "acc = Some d0"
    by (cases acc) (auto simp add: add_filler_def)
  show ?thesis
  proof (cases "graph_value g n (fst pk)")
    case None
    with assms(1) acc show ?thesis by (simp add: add_filler_def)
  next
    case (Some val)
    show ?thesis
    proof (cases "is_BNode val \<or> is_URIRef val")
      case True
      with assms(1) acc Some obtain e where e: "rec val = Some e"
        and d: "d = dict_set d0 (snd pk) e"
        by (auto simp add: add_filler_def split: option.splits)
      from assms(2) [OF e] d True Some acc show ?thesis by (simp add: add_filler_def)
    next
      case False
      with assms(1) acc Some show ?thesis by (simp add: add_filler_def)
    qed
  qed
qed

lemma fold_add_filler_mono:
  "fold (add_filler rec g n) ps acc = Some d \<Longrightarrow>
   (\<And>x e. rec x = Some e \<Longrightarrow> rec' x = Some e) \<Longrightarrow>
   fold (add_filler rec' g n) ps acc = Some d"
proof (induction ps arbitrary: acc)
  case Nil
  then show ?case by simp
next
  case (Cons pk ps)
  from Cons.prems(1) obtain d1 where d1: "add_filler rec g n pk acc = Some d1"
    by (cases "add_filler rec g n pk acc") (auto simp add: fold_add_filler_None)
  with Cons.prems(1) have rest: "fold (add_filler rec g n) ps (Some d1) = Some d" by simp
  from add_filler_mono [OF d1 Cons.prems(2)] Cons.IH [OF rest Cons.prems(2)]
  show ?case by simp
qed

subsection \<open>The branches of the summarizer\<close>

lemma is_BNode_only: "is_BNode n \<Longrightarrow> \<not> is_URIRef n \<and> \<not> is_Literal n"
  by (cases n) simp_all

lemma summarize_leaf: "\<not> is_BNode n \<Longrightarrow> summarize_expression (Suc k) g n \<noteq> None"
  by simp

lemma summarize_leaf_fuel:
  "\<not> is_BNode n \<Longrightarrow> summarize_expression (Suc k) g n = summarize_expression (Suc k') g n"
  by simp

lemma summarize_restriction:
  "is_BNode n \<Longrightarrow> is_restriction g n \<Longrightarrow>
   summarize_expression (Suc k) g n =
     map_option PDict
       (fold (add_filler (summarize_expression k g) g n) filler_preds
          (Some [(''exprType'', PStr ''Restriction''),
                 (''onProperty'', fq (graph_value g n OWL_onProperty))]))"
  by (simp add: is_BNode_only)

lemma summarize_intersection:
  "is_BNode n \<Longrightarrow> \<not> is_restriction g n \<Longrightarrow> graph_value g n OWL_intersectionOf = Some x \<Longrightarrow>
   summarize_expression (Suc k) g n =
     summarize_list (summarize_expression k g) (rdf_list_to_py k g x)
       ''Intersection'' ''operands''"
  by (simp add: is_BNode_only)

lemma summarize_union:
  "is_BNode n \<Longrightarrow> \<not> is_restriction g n \<Longrightarrow> graph_value g n OWL_intersectionOf = None \<Longrightarrow>
   graph_value g n OWL_unionOf = Some x \<Longrightarrow>
   summarize_expression (Suc k) g n =
     summarize_list (summarize_expression k g) (rdf_list_to_py k g x) ''Union'' ''operands''"
  by (simp add: is_BNode_only)

lemma summarize_complement:
  "is_BNode n \<Longrightarrow> \<not> is_restriction g n \<Longrightarrow> graph_value g n OWL_intersectionOf = None \<Longrightarrow>
   graph_value g n OWL_unionOf = None \<Longrightarrow> graph_value g n OWL_complementOf = Some x \<Longrightarrow>
   summarize_expression (Suc k) g n =
     (case summarize_expression k g x of
        None \<Rightarrow> None
      | Some e \<Rightarrow> Some (PDict [(''exprType'', PStr ''Complement''), (''operand'', e)]))"
  by (simp add: is_BNode_only)

lemma summarize_oneOf:
  "is_BNode n \<Longrightarrow> \<not> is_restriction g n \<Longrightarrow> graph_value g n OWL_intersectionOf = None \<Longrightarrow>
   graph_value g n OWL_unionOf = None \<Longrightarrow> graph_value g n OWL_complementOf = None \<Longrightarrow>
   graph_value g n OWL_oneOf = Some x \<Longrightarrow>
   summarize_expression (Suc k) g n =
     summarize_list (summarize_expression k g) (rdf_list_to_py k g x) ''OneOf'' ''members''"
  by (simp add: is_BNode_only)

lemma summarize_plain:
  "is_BNode n \<Longrightarrow> \<not> is_restriction g n \<Longrightarrow> graph_value g n OWL_intersectionOf = None \<Longrightarrow>
   graph_value g n OWL_unionOf = None \<Longrightarrow> graph_value g n OWL_complementOf = None \<Longrightarrow>
   graph_value g n OWL_oneOf = None \<Longrightarrow>
   summarize_expression (Suc k) g n =
     Some (PDict [(''exprType'', PStr ''BNode''), (''props'', props_value (bnode_props g n))])"
  by (simp add: is_BNode_only)

lemma summarize_expression_mono:
  "summarize_expression F g n = Some r \<Longrightarrow> F \<le> F' \<Longrightarrow> summarize_expression F' g n = Some r"
proof (induction F arbitrary: F' n r)
  case 0
  then show ?case by simp
next
  case (Suc k)
  from Suc.prems(2) obtain k' where F': "F' = Suc k'" and le: "k \<le> k'"
    by (cases F') auto
  have rec: "\<And>x e. summarize_expression k g x = Some e \<Longrightarrow> summarize_expression k' g x = Some e"
    using Suc.IH le by blast
  have lst: "\<And>x xs. rdf_list_to_py k g x = Some xs \<Longrightarrow> rdf_list_to_py k' g x = Some xs"
    using rdf_list_to_py_mono le by blast
  note S = Suc.prems(1)
  show ?case
  proof (cases "is_BNode n")
    case False
    from S show ?thesis unfolding F' summarize_leaf_fuel [OF False, of k' g k] .
  next
    case bn: True
    show ?thesis
    proof (cases "is_restriction g n")
      case True
      from S obtain d where
        d: "fold (add_filler (summarize_expression k g) g n) filler_preds
          (Some [(''exprType'', PStr ''Restriction''),
                 (''onProperty'', fq (graph_value g n OWL_onProperty))]) = Some d"
        and r: "r = PDict d"
        unfolding summarize_restriction [OF bn True] by auto
      from fold_add_filler_mono [OF d rec] r show ?thesis
        unfolding F' summarize_restriction [OF bn True] by simp
    next
      case nr: False
      show ?thesis
      proof (cases "graph_value g n OWL_intersectionOf")
        case (Some x)
        from S show ?thesis
          unfolding F' summarize_intersection [OF bn nr Some]
          by (rule summarize_list_mono) (auto intro: rec lst)
      next
        case ni: None
        show ?thesis
        proof (cases "graph_value g n OWL_unionOf")
          case (Some x)
          from S show ?thesis
            unfolding F' summarize_union [OF bn nr ni Some]
            by (rule summarize_list_mono) (auto intro: rec lst)
        next
          case nu: None
          show ?thesis
          proof (cases "graph_value g n OWL_complementOf")
            case (Some x)
            from S obtain e where e: "summarize_expression k g x = Some e"
              and r: "r = PDict [(''exprType'', PStr ''Complement''), (''operand'', e)]"
              unfolding summarize_complement [OF bn nr ni nu Some]
              by (auto split: option.splits)
            from rec [OF e] r show ?thesis
              unfolding F' summarize_complement [OF bn nr ni nu Some] by simp
          next
            case nc: None
            show ?thesis
            proof (cases "graph_value g n OWL_oneOf")
              case (Some x)
              from S show ?thesis
                unfolding F' summarize_oneOf [OF bn nr ni nu nc Some]
                by (rule summarize_list_mono) (auto intro: rec lst)
            next
              case None
              from S show ?thesis
                unfolding F' summarize_plain [OF bn nr ni nu nc None] by simp
            qed
          qed
        qed
      qed
    qed
  qed
qed

subsection \<open>Links\<close>

lemma graph_value_triple: "graph_value g s p = Some ob \<Longrightarrow> (s, p, ob) \<in> set g"
proof -
  assume "graph_value g s p = Some ob"
  then have "ob \<in> set (objects g s p)"
    by (cases "objects g s p") (simp_all add: graph_value_def)
  then show ?thesis by (simp add: set_objects)
qed

lemma links_iff: "((s, ob) \<in> links g) = (\<exists>p. p \<in> set link_preds \<and> (s, p, ob) \<in> set g)"
  unfolding links_def by force

lemma link_edge: "graph_value g s p = Some ob \<Longrightarrow> p \<in> set link_preds \<Longrightarrow> (s, ob) \<in> links g"
  unfolding links_iff by (blast dest: graph_value_triple)

lemma finite_links: "finite (links g)"
  by (simp add: links_def)

lemma link_preds_list:
  "RDF_first \<in> set link_preds" "RDF_rest \<in> set link_preds"
  "OWL_intersectionOf \<in> set link_preds" "OWL_unionOf \<in> set link_preds"
  "OWL_complementOf \<in> set link_preds" "OWL_oneOf \<in> set link_preds"
  by (simp_all add: link_preds_def)

lemma link_preds_filler: "pk \<in> set filler_preds \<Longrightarrow> fst pk \<in> set link_preds"
  by (simp add: link_preds_def)

subsection \<open>The list walks on acyclic chains\<close>

lemma graph_items_reach:
  "graph_items F g lst c i = Some (items, raised) \<Longrightarrow>
   set items \<subseteq> set i \<union> {it. \<exists>l. lst = Some l \<and> (l, it) \<in> (links g)\<^sup>+}"
proof (induction F arbitrary: lst c i)
  case 0
  then show ?case by simp
next
  case (Suc k)
  show ?case
  proof (cases lst)
    case None
    with Suc.prems show ?thesis by simp
  next
    case (Some l)
    show ?thesis
    proof (cases "truthy l")
      case False
      with Suc.prems Some show ?thesis by simp
    next
      case True
      let ?items = "case graph_value g l RDF_first of None \<Rightarrow> i | Some item \<Rightarrow> i @ [item]"
      let ?nxt = "graph_value g l RDF_rest"
      have first: "set ?items \<subseteq> set i \<union> {it. (l, it) \<in> (links g)\<^sup>+}"
        by (auto split: option.splits dest: link_edge [OF _ link_preds_list(1)])
      show ?thesis
      proof (cases "?nxt \<in> set c")
        case True
        with Suc.prems Some \<open>truthy l\<close> have "items = ?items" by (simp add: Let_def)
        with first Some show ?thesis by auto
      next
        case False
        with Suc.prems Some \<open>truthy l\<close>
        have "graph_items k g ?nxt (c @ [?nxt]) ?items = Some (items, raised)"
          by (simp add: Let_def)
        from Suc.IH [OF this]
        have "set items \<subseteq> set ?items \<union> {it. \<exists>y. ?nxt = Some y \<and> (y, it) \<in> (links g)\<^sup>+}" .
        moreover have "(l, it) \<in> (links g)\<^sup>+" if "?nxt = Some y" "(y, it) \<in> (links g)\<^sup>+" for y it
          using link_edge [OF that(1) link_preds_list(2)] that(2) by (rule trancl_into_trancl2)
        ultimately show ?thesis using first Some by blast
      qed
    qed
  qed
qed

lemma graph_items_acyclic:
  assumes ac: "acyclic (links g)"
  shows "\<forall>x \<in> set c. \<exists>y. x = Some y \<and> (y, l) \<in> (links g)\<^sup>* \<Longrightarrow>
         \<exists>F items. graph_items F g (Some l) c i = Some (items, False)"
proof (induction l arbitrary: c i rule: wf_induct_rule [OF finite_acyclic_wf_converse [OF finite_links ac]])
  case (1 l)
  show ?case
  proof (cases "truthy l")
    case False
    then have "graph_items (Suc 0) g (Some l) c i = Some (i, False)" by simp
    then show ?thesis by blast
  next
    case True
    let ?items = "case graph_value g l RDF_first of None \<Rightarrow> i | Some item \<Rightarrow> i @ [item]"
    show ?thesis
    proof (cases "graph_value g l RDF_rest")
      case None
      from "1.prems" have "None \<notin> set c" by auto
      with None True have "graph_items (Suc (Suc 0)) g (Some l) c i = Some (?items, False)"
        by (simp add: Let_def)
      then show ?thesis by blast
    next
      case (Some y)
      then have edge: "(l, y) \<in> links g" using link_preds_list(2) by (rule link_edge)
      have fresh: "Some y \<notin> set c"
      proof
        assume "Some y \<in> set c"
        with "1.prems" have "(y, l) \<in> (links g)\<^sup>*" by auto
        with edge have "(l, l) \<in> (links g)\<^sup>+" by (rule rtrancl_into_trancl2)
        with ac show False by (simp add: acyclic_def)
      qed
      have "\<forall>x \<in> set (c @ [Some y]). \<exists>z. x = Some z \<and> (z, y) \<in> (links g)\<^sup>*"
        using "1.prems" edge by (auto intro: rtrancl_into_rtrancl)
      moreover from edge have "(y, l) \<in> (links g)\<inverse>" by simp
      ultimately obtain F items where
        "graph_items F g (Some y) (c @ [Some y]) ?items = Some (items, False)"
        using "1.IH" by blast
      with Some True fresh have "graph_items (Suc F) g (Some l) c i = Some (items, False)"
        by (simp add: Let_def)
      then show ?thesis by blast
    qed
  qed
qed

lemma rdf_list_to_py_acyclic:
  assumes "acyclic (links g)"
  shows "\<exists>F items. rdf_list_to_py F g n = Some items \<and>
           set items \<subseteq> {it. (n, it) \<in> (links g)\<^sup>+}"
proof -
  have "\<forall>x \<in> set [Some n]. \<exists>y. x = Some y \<and> (y, n) \<in> (links g)\<^sup>*" by simp
  from graph_items_acyclic [OF assms this]
  obtain F items where h: "graph_items F g (Some n) [Some n] [] = Some (items, False)"
    by blast
  from graph_items_reach [OF h] have "set items \<subseteq> {it. (n, it) \<in> (links g)\<^sup>+}" by simp
  moreover from h have "rdf_list_to_py F g n = Some items" by (simp add: rdf_list_to_py_def)
  ultimately show ?thesis by blast
qed

subsection \<open>Enough fuel on acyclic graphs\<close>

lemma common_fuel:
  "\<forall>x \<in> set xs. \<exists>F r. summarize_expression F g x = Some r \<Longrightarrow>
   \<exists>F. \<forall>x \<in> set xs. \<exists>r. summarize_expression F g x = Some r"
proof (induction xs)
  case Nil
  then show ?case by simp
next
  case (Cons x xs)
  then obtain F1 where F1: "\<forall>y \<in> set xs. \<exists>r. summarize_expression F1 g y = Some r" by auto
  from Cons.prems obtain F2 r where F2: "summarize_expression F2 g x = Some r" by auto
  have "\<forall>y \<in> set (x # xs). \<exists>r. summarize_expression (max F1 F2) g y = Some r"
  proof
    fix y assume "y \<in> set (x # xs)"
    then consider "y = x" | "y \<in> set xs" by auto
    then show "\<exists>r. summarize_expression (max F1 F2) g y = Some r"
    proof cases
      case 1
      with summarize_expression_mono [OF F2, of "max F1 F2"] show ?thesis by simp
    next
      case 2
      with F1 obtain r' where "summarize_expression F1 g y = Some r'" by blast
      from summarize_expression_mono [OF this, of "max F1 F2"] show ?thesis by simp
    qed
  qed
  then show ?case by blast
qed

lemma in_map_filter: "(y \<in> set (List.map_filter f xs)) = (\<exists>x \<in> set xs. f x = Some y)"
  by (induction xs) (auto split: option.splits)

lemma summarize_all_total:
  "\<forall>x \<in> set xs. \<exists>r. rec x = Some r \<Longrightarrow> \<exists>es. summarize_all rec xs = Some es"
  by (induction xs) auto

lemma fold_add_filler_total:
  "\<forall>pk \<in> set ps. \<forall>val. graph_value g n (fst pk) = Some val \<longrightarrow> (\<exists>e. rec val = Some e) \<Longrightarrow>
   \<exists>d'. fold (add_filler rec g n) ps (Some d) = Some d'"
proof (induction ps arbitrary: d)
  case Nil
  then show ?case by simp
next
  case (Cons pk ps)
  have "\<exists>d1. add_filler rec g n pk (Some d) = Some d1"
  proof (cases "graph_value g n (fst pk)")
    case None
    then show ?thesis by (simp add: add_filler_def)
  next
    case (Some val)
    with Cons.prems obtain e where "rec val = Some e" by auto
    with Some show ?thesis by (simp add: add_filler_def)
  qed
  then obtain d1 where "add_filler rec g n pk (Some d) = Some d1" ..
  moreover from Cons.prems Cons.IH [of d1]
  obtain d' where "fold (add_filler rec g n) ps (Some d1) = Some d'" by auto
  ultimately show ?case by simp
qed

lemma summarize_list_total:
  assumes items: "rdf_list_to_py F1 g x = Some items"
    and each: "\<forall>it \<in> set items. \<exists>F r. summarize_expression F g it = Some r"
  shows "\<exists>K r. summarize_list (summarize_expression K g) (rdf_list_to_py K g x) tag field = Some r"
proof -
  from common_fuel [OF each] obtain F2
    where F2: "\<forall>it \<in> set items. \<exists>r. summarize_expression F2 g it = Some r" by blast
  let ?K = "max F1 F2"
  have "\<forall>it \<in> set items. \<exists>r. summarize_expression ?K g it = Some r"
  proof
    fix it assume "it \<in> set items"
    with F2 obtain r where "summarize_expression F2 g it = Some r" by blast
    from summarize_expression_mono [OF this, of ?K] show "\<exists>r. summarize_expression ?K g it = Some r"
      by simp
  qed
  from summarize_all_total [OF this]
  obtain es where "summarize_all (summarize_expression ?K g) items = Some es" ..
  moreover from rdf_list_to_py_mono [OF items, of ?K]
  have "rdf_list_to_py ?K g x = Some items" by simp
  ultimately have "summarize_list (summarize_expression ?K g) (rdf_list_to_py ?K g x) tag field =
      Some (PDict [(''exprType'', PStr tag), (field, PList es)])"
    by (simp add: summarize_list_def)
  then show ?thesis by blast
qed

lemma summarize_expression_acyclic:
  assumes ac: "acyclic (links g)"
  shows "\<exists>F r. summarize_expression F g n = Some r"
proof -
  have "wf (((links g)\<^sup>+)\<inverse>)"
    using finite_acyclic_wf_converse [OF finite_links ac]
    by (simp add: wf_trancl flip: trancl_converse)
  then show ?thesis
  proof (induction n rule: wf_induct_rule)
    case (less n)
    then have IH: "\<And>y. (n, y) \<in> (links g)\<^sup>+ \<Longrightarrow> \<exists>F r. summarize_expression F g y = Some r"
      by simp
    have via: "\<exists>K r. summarize_list (summarize_expression K g) (rdf_list_to_py K g x) tag field = Some r"
      if x: "graph_value g n p = Some x" and p: "p \<in> set link_preds" for x p tag field
    proof -
      from x p have edge: "(n, x) \<in> links g" by (rule link_edge)
      from rdf_list_to_py_acyclic [OF ac, of x] obtain F1 items
        where items: "rdf_list_to_py F1 g x = Some items"
          and reach: "set items \<subseteq> {it. (x, it) \<in> (links g)\<^sup>+}" by blast
      have "\<forall>it \<in> set items. \<exists>F r. summarize_expression F g it = Some r"
      proof
        fix it assume "it \<in> set items"
        with reach have "(x, it) \<in> (links g)\<^sup>+" by auto
        with edge have "(n, it) \<in> (links g)\<^sup>+" by (rule trancl_into_trancl2)
        then show "\<exists>F r. summarize_expression F g it = Some r" by (rule IH)
      qed
      with items show ?thesis by (rule summarize_list_total)
    qed
    show ?case
    proof (cases "is_BNode n")
      case False
      then have "summarize_expression (Suc 0) g n \<noteq> None" by (rule summarize_leaf)
      then show ?thesis by blast
    next
      case bn: True
      show ?thesis
      proof (cases "is_restriction g n")
        case True
        let ?vals = "List.map_filter (\<lambda>pk. graph_value g n (fst pk)) filler_preds"
        have "\<forall>val \<in> set ?vals. \<exists>F r. summarize_expression F g val = Some r"
        proof
          fix val assume "val \<in> set ?vals"
          then obtain pk where "pk \<in> set filler_preds" "graph_value g n (fst pk) = Some val"
            by (auto simp add: in_map_filter)
          then have "(n, val) \<in> links g" using link_preds_filler link_edge by blast
          then show "\<exists>F r. summarize_expression F g val = Some r" by (intro IH) simp
        qed
        from common_fuel [OF this] obtain K
          where K: "\<forall>val \<in> set ?vals. \<exists>r. summarize_expression K g val = Some r" by blast
        have "\<forall>pk \<in> set filler_preds. \<forall>val. graph_value g n (fst pk) = Some val \<longrightarrow>
            (\<exists>e. summarize_expression K g val = Some e)"
        proof (intro ballI allI impI)
          fix pk val assume "pk \<in> set filler_preds" "graph_value g n (fst pk) = Some val"
          then have "val \<in> set ?vals" by (force simp add: in_map_filter)
          with K show "\<exists>e. summarize_expression K g val = Some e" by blast
        qed
        from fold_add_filler_total [OF this] obtain d
          where "fold (add_filler (summarize_expression K g) g n) filler_preds
            (Some [(''exprType'', PStr ''Restriction''),
                   (''onProperty'', fq (graph_value g n OWL_onProperty))]) = Some d" ..
        then have "summarize_expression (Suc K) g n = Some (PDict d)"
          unfolding summarize_restriction [OF bn True] by simp
        then show ?thesis by blast
      next
        case nr: False
        show ?thesis
        proof (cases "graph_value g n OWL_intersectionOf")
          case (Some x)
          from via [OF Some link_preds_list(3), of "''Intersection''" "''operands''"]
          show ?thesis unfolding summarize_intersection [OF bn nr Some, symmetric] by blast
        next
          case ni: None
          show ?thesis
          proof (cases "graph_value g n OWL_unionOf")
            case (Some x)
            from via [OF Some link_preds_list(4), of "''Union''" "''operands''"]
            show ?thesis unfolding summarize_union [OF bn nr ni Some, symmetric] by blast
          next
            case nu: None
            show ?thesis
            proof (cases "graph_value g n OWL_complementOf")
              case (Some x)
              from Some link_preds_list(5) have "(n, x) \<in> links g" by (rule link_edge)
              then have "\<exists>F r. summarize_expression F g x = Some r" by (intro IH) simp
              then obtain F r where "summarize_expression F g x = Some r" by blast
              then have "summarize_expression (Suc F) g n =
                  Some (PDict [(''exprType'', PStr ''Complement''), (''operand'', r)])"
                unfolding summarize_complement [OF bn nr ni nu Some] by simp
              then show ?thesis by blast
            next
              case nc: None
              show ?thesis
              proof (cases "graph_value g n OWL_oneOf")
                case (Some x)
                from via [OF Some link_preds_list(6), of "''OneOf''" "''members''"]
                show ?thesis unfolding summarize_oneOf [OF bn nr ni nu nc Some, symmetric] by blast
              next
                case None
                from summarize_plain [OF bn nr ni nu nc None, of 0] show ?thesis by blast
              qed
            qed
          qed
        qed
      qed
    qed
  qed
qed

subsection \<open>The expression summarizer\<close>

lemma summarize_list_type:
  "summarize_list rec items tag field = Some r \<Longrightarrow> dict_get r ''exprType'' = Some (PStr tag)"
  by (auto simp add: summarize_list_def split: option.splits)

lemma summarize_expression_type:
  assumes "summarize_expression fuel g n = Some r"
  shows "dict_get r ''exprType'' = Some (PStr (expr_type g n))"
proof -
  from assms obtain k where fuel: "fuel = Suc k" by (cases fuel) auto
  show ?thesis
  proof (cases "is_BNode n \<and> is_restriction g n")
    case True
    then have nb: "\<not> is_URIRef n" "\<not> is_Literal n" by (cases n; simp)+
    from assms True nb obtain d where
      d: "fold (add_filler (summarize_expression k g) g n) filler_preds
           (Some [(''exprType'', PStr ''Restriction''),
                  (''onProperty'', fq (graph_value g n OWL_onProperty))]) = Some d"
      and r: "r = PDict d"
      unfolding fuel by auto
    have "''exprType'' \<notin> set (map snd filler_preds)" using filler_keys by auto
    from fold_add_filler_old [OF d this] r True nb show ?thesis
      by (simp add: expr_type_def)
  next
    case False
    with assms show ?thesis unfolding fuel
      by (auto simp add: expr_type_def dest: summarize_list_type split: option.splits if_splits)
  qed
qed

lemmas query_defs = graph_value_def objects_def predicate_objects_def is_restriction_def

lemma example_union_links:
  "links example_union_graph =
     {(BNode ''u'', BNode ''l1''), (BNode ''u'', URIRef ''ex:Fish''),
      (BNode ''l1'', URIRef ''ex:Cat''), (BNode ''l1'', BNode ''l2''),
      (BNode ''l2'', URIRef ''ex:Dog''), (BNode ''l2'', RDF_nil)}"
  by (simp add: links_def link_preds_def filler_preds_def example_union_graph_def vocab_defs)

lemma example_union_acyclic: "acyclic (links example_union_graph)"
proof (rule acyclicI_order [where f = example_rank])
  fix a b assume "(a, b) \<in> links example_union_graph"
  then show "example_rank b < example_rank a"
    unfolding example_union_links by (auto simp add: RDF_nil_def)
qed

text \<open>
  Claim C1. Whatever \<open>summarize_expression\<close> returns for a node carries the type that the
  priority order gives the node: Named for a named resource, Literal for a literal, and for
  an anonymous node Restriction (typed as one or bearing \<open>owl:onProperty\<close>), else
  Intersection, Union, Complement, OneOf by the link it has, else BNode; Unknown for any
  other value. Named, Literal, BNode and Unknown records are returned without recursion, and
  a BNode record carries the node's (predicate, object) pairs grouped by the predicate's
  string form, the objects as strings in store order. On a graph whose links have no cycle
  every node is classified: with enough fuel a record of its type is returned.
\<close>

theorem summarize_expression_dispatch:
  "(summarize_expression fuel g n = Some r \<longrightarrow>
      dict_get r ''exprType'' = Some (PStr (expr_type g n)))
   \<and> (is_URIRef n \<longrightarrow>
        summarize_expression (Suc k) g n =
          Some (PDict [(''exprType'', PStr ''Named''), (''iri'', PStr (pystr n))]))
   \<and> (is_Literal n \<longrightarrow>
        summarize_expression (Suc k) g n =
          Some (PDict [(''exprType'', PStr ''Literal''), (''value'', PStr (pystr n))]))
   \<and> (expr_type g n = ''BNode'' \<longrightarrow>
        summarize_expression (Suc k) g n =
          Some (PDict [(''exprType'', PStr ''BNode''), (''props'', props_value (bnode_props g n))])
        \<and> distinct (map fst (bnode_props g n))
        \<and> (\<forall>key. map_of (bnode_props g n) key =
              (if grouped_objects g n key = [] then None else Some (grouped_objects g n key))))
   \<and> (expr_type g n = ''Unknown'' \<longrightarrow>
        summarize_expression (Suc k) g n =
          Some (PDict [(''exprType'', PStr ''Unknown''), (''value'', PStr (pystr n))]))
   \<and> (acyclic (links g) \<longrightarrow>
        (\<exists>enough e. summarize_expression enough g n = Some e \<and>
           dict_get e ''exprType'' = Some (PStr (expr_type g n))))"
proof (intro conjI impI allI)
  assume "summarize_expression fuel g n = Some r"
  then show "dict_get r ''exprType'' = Some (PStr (expr_type g n))"
    by (rule summarize_expression_type)
next
  assume "is_URIRef n"
  then show "summarize_expression (Suc k) g n =
      Some (PDict [(''exprType'', PStr ''Named''), (''iri'', PStr (pystr n))])"
    by simp
next
  assume "is_Literal n"
  then show "summarize_expression (Suc k) g n =
      Some (PDict [(''exprType'', PStr ''Literal''), (''value'', PStr (pystr n))])"
    by (cases n) simp_all
next
  assume "expr_type g n = ''BNode''"
  then show "summarize_expression (Suc k) g n =
      Some (PDict [(''exprType'', PStr ''BNode''), (''props'', props_value (bnode_props g n))])"
    by (auto simp add: expr_type_def split: if_splits)
next
  show "distinct (map fst (bnode_props g n))" by (rule bnode_props_distinct)
next
  fix key
  show "map_of (bnode_props g n) key =
      (if grouped_objects g n key = [] then None else Some (grouped_objects g n key))"
    by (rule bnode_props_grouped)
next
  assume "expr_type g n = ''Unknown''"
  then show "summarize_expression (Suc k) g n =
      Some (PDict [(''exprType'', PStr ''Unknown''), (''value'', PStr (pystr n))])"
    by (auto simp add: expr_type_def fq_def split: if_splits)
next
  assume "acyclic (links g)"
  then obtain enough e where e: "summarize_expression enough g n = Some e"
    using summarize_expression_acyclic by blast
  from e summarize_expression_type [OF e]
  show "\<exists>enough e. summarize_expression enough g n = Some e \<and>
           dict_get e ''exprType'' = Some (PStr (expr_type g n))"
    by blast
qed

lemma example_union_summary:
  "summarize_expression 5 example_union_graph (BNode ''u'') =
     Some (PDict [(''exprType'', PStr ''Union''),
                  (''operands'', PList [PDict [(''exprType'', PStr ''Named''), (''iri'', PStr ''ex:Cat'')],
                                        PDict [(''exprType'', PStr ''Named''), (''iri'', PStr ''ex:Dog'')]])])"
  by (simp add: eval_nat_numeral example_union_graph_def query_defs vocab_defs
      rdf_list_to_py_def summarize_list_def)

theorem summarize_expression_dispatch_witness:
  "(\<exists>enough e. summarize_expression enough example_union_graph (BNode ''u'') = Some e \<and>
      dict_get e ''exprType'' = Some (PStr (expr_type example_union_graph (BNode ''u''))))
   \<and> expr_type example_union_graph (BNode ''u'') = ''Union''
   \<and> summarize_expression 5 example_union_graph (BNode ''u'') =
     Some (PDict [(''exprType'', PStr ''Union''),
                  (''operands'', PList [PDict [(''exprType'', PStr ''Named''), (''iri'', PStr ''ex:Cat'')],
                                        PDict [(''exprType'', PStr ''Named''), (''iri'', PStr ''ex:Dog'')]])])
   \<and> summarize_expression 1 example_union_graph (URIRef ''ex:Cat'') =
     Some (PDict [(''exprType'', PStr ''Named''), (''iri'', PStr ''ex:Cat'')])
   \<and> summarize_expression 1 example_union_graph (Literal ''b'' None None True) =
     Some (PDict [(''exprType'', PStr ''Literal''), (''value'', PStr ''b'')])
   \<and> summarize_expression 1 example_union_graph (OtherTerm ''v'') =
     Some (PDict [(''exprType'', PStr ''Unknown''), (''value'', PStr ''v'')])
   \<and> summarize_expression 1 example_union_graph (BNode ''x'') =
     Some (PDict [(''exprType'', PStr ''BNode''),
                  (''props'', PDict [(''ex:note'', PList [PStr ''a'', PStr ''b'']),
                                     (''ex:seeAlso'', PList [PStr ''ex:Cat''])])])"
proof (intro conjI)
  show "\<exists>enough e. summarize_expression enough example_union_graph (BNode ''u'') = Some e \<and>
      dict_get e ''exprType'' = Some (PStr (expr_type example_union_graph (BNode ''u'')))"
    using summarize_expression_dispatch [of 1 example_union_graph "BNode ''u''" PNone 0,
        THEN conjunct2, THEN conjunct2, THEN conjunct2, THEN conjunct2, THEN conjunct2,
        rule_format, OF example_union_acyclic] .
next
  let ?r = "PDict [(''exprType'', PStr ''Union''),
                  (''operands'', PList [PDict [(''exprType'', PStr ''Named''), (''iri'', PStr ''ex:Cat'')],
                                        PDict [(''exprType'', PStr ''Named''), (''iri'', PStr ''ex:Dog'')]])]"
  have "dict_get ?r ''exprType'' = Some (PStr (expr_type example_union_graph (BNode ''u'')))"
    using summarize_expression_dispatch [of 5 example_union_graph "BNode ''u''" ?r 0]
      example_union_summary by blast
  then show "expr_type example_union_graph (BNode ''u'') = ''Union''" by simp
  show "summarize_expression 5 example_union_graph (BNode ''u'') = Some ?r"
    by (rule example_union_summary)
next
  show "summarize_expression 1 example_union_graph (URIRef ''ex:Cat'') =
     Some (PDict [(''exprType'', PStr ''Named''), (''iri'', PStr ''ex:Cat'')])"
    using summarize_expression_dispatch [of 1 example_union_graph "URIRef ''ex:Cat''" PNone 0]
    by simp
next
  show "summarize_expression 1 example_union_graph (Literal ''b'' None None True) =
     Some (PDict [(''exprType'', PStr ''Literal''), (''value'', PStr ''b'')])"
    using summarize_expression_dispatch
      [of 1 example_union_graph "Literal ''b'' None None True" PNone 0]
    by simp
next
  have "expr_type example_union_graph (OtherTerm ''v'') = ''Unknown''"
    by (simp add: expr_type_def)
  then show "summarize_expression 1 example_union_graph (OtherTerm ''v'') =
     Some (PDict [(''exprType'', PStr ''Unknown''), (''value'', PStr ''v'')])"
    using summarize_expression_dispatch [of 1 example_union_graph "OtherTerm ''v''" PNone 0]
    by simp
next
  have t: "expr_type example_union_graph (BNode ''x'') = ''BNode''"
    by (simp add: expr_type_def example_union_graph_def query_defs vocab_defs)
  have p: "props_value (bnode_props example_union_graph (BNode ''x'')) =
      PDict [(''ex:note'', PList [PStr ''a'', PStr ''b'']), (''ex:seeAlso'', PList [PStr ''ex:Cat''])]"
    by (simp add: props_value_def bnode_props_def example_union_graph_def query_defs fq_def)
  from t show "summarize_expression 1 example_union_graph (BNode ''x'') =
     Some (PDict [(''exprType'', PStr ''BNode''),
                  (''props'', PDict [(''ex:note'', PList [PStr ''a'', PStr ''b'']),
                                     (''ex:seeAlso'', PList [PStr ''ex:Cat''])])])"
    using summarize_expression_dispatch [of 1 example_union_graph "BNode ''x''" PNone 0]
    by (simp add: p)
qed

lemma summarize_expression_is_dict:
  "summarize_expression fuel g n = Some e \<Longrightarrow> \<exists>d. e = PDict d"
  using summarize_expression_type [of fuel g n e] by (cases e) simp_all

lemma restriction_record:
  assumes bn: "is_BNode n" and rs: "is_restriction g n"
    and res: "summarize_expression fuel g n = Some r"
  obtains k d where "fuel = Suc k" and "r = PDict d"
    and "fold (add_filler (summarize_expression k g) g n) filler_preds
           (Some [(''exprType'', PStr ''Restriction''),
                  (''onProperty'', fq (graph_value g n OWL_onProperty))]) = Some d"
proof -
  from res obtain k where fuel: "fuel = Suc k" by (cases fuel) auto
  from bn have nb: "\<not> is_URIRef n" "\<not> is_Literal n" by (cases n; simp)+
  from res bn rs nb obtain d where
    "fold (add_filler (summarize_expression k g) g n) filler_preds
           (Some [(''exprType'', PStr ''Restriction''),
                  (''onProperty'', fq (graph_value g n OWL_onProperty))]) = Some d"
    and "r = PDict d"
    unfolding fuel by auto
  with fuel that show thesis by blast
qed

text \<open>
  Claim C2, amended. A Restriction record holds \<open>exprType\<close>, \<open>onProperty\<close> and exactly the
  filler fields, in the fixed order of the nine, whose predicate has a value on the node (none
  up to nine of them); a present filler is the nested record of its value when the value is a
  named resource or an anonymous node, and the value's string form otherwise; a filler with
  no value has no key.
\<close>

theorem restriction_fillers_present:
  assumes "is_BNode n" and "is_restriction g n"
    and "summarize_expression fuel g n = Some r"
  shows "\<exists>d. r = PDict d
     \<and> map fst d = [''exprType'', ''onProperty''] @
          map snd (filter (\<lambda>pk. graph_value g n (fst pk) \<noteq> None) filler_preds)
     \<and> map_of d ''onProperty'' = Some (fq (graph_value g n OWL_onProperty))
     \<and> (\<forall>pk \<in> set filler_preds. \<forall>val. graph_value g n (fst pk) = Some val \<longrightarrow>
           map_of d (snd pk) =
             (if is_BNode val \<or> is_URIRef val then summarize_expression (fuel - 1) g val
              else Some (PStr (pystr val))))"
proof -
  from assms obtain k d where fuel: "fuel = Suc k" and r: "r = PDict d"
    and d: "fold (add_filler (summarize_expression k g) g n) filler_preds
           (Some [(''exprType'', PStr ''Restriction''),
                  (''onProperty'', fq (graph_value g n OWL_onProperty))]) = Some d"
    by (rule restriction_record)
  have keys: "map fst d = [''exprType'', ''onProperty''] @
          map snd (filter (\<lambda>pk. graph_value g n (fst pk) \<noteq> None) filler_preds)"
    using fold_add_filler_keys [OF d filler_keys_distinct] filler_keys by simp
  have "''onProperty'' \<notin> set (map snd filler_preds)" using filler_keys by auto
  from fold_add_filler_old [OF d this]
  have onp: "map_of d ''onProperty'' = Some (fq (graph_value g n OWL_onProperty))" by simp
  have vals: "\<forall>pk \<in> set filler_preds. \<forall>val. graph_value g n (fst pk) = Some val \<longrightarrow>
           map_of d (snd pk) =
             (if is_BNode val \<or> is_URIRef val then summarize_expression (fuel - 1) g val
              else Some (PStr (pystr val)))"
    using fold_add_filler_value [OF d filler_keys_distinct] by (simp add: fuel fq_def)
  from r keys onp vals show ?thesis by blast
qed

text \<open>
  Claim C2, as stated, fails: a restriction record holds as many filler fields as the node has
  recognised filler predicates. The self-restriction below yields a record with none.
\<close>

theorem restriction_fillers_counterexample:
  "is_restriction example_hasSelf_graph (BNode ''s'')
   \<and> summarize_expression 1 example_hasSelf_graph (BNode ''s'') =
       Some (PDict [(''exprType'', PStr ''Restriction''), (''onProperty'', PStr ''ex:likes'')])
   \<and> length (filler_fields
         (PDict [(''exprType'', PStr ''Restriction''), (''onProperty'', PStr ''ex:likes'')])) \<noteq> 1"
  by (simp add: example_hasSelf_graph_def query_defs vocab_defs add_filler_def filler_preds_def
      fq_def filler_fields_def)

lemma example_restriction_summary:
  "summarize_expression 2 example_restriction_graph (BNode ''r'') =
     Some (PDict [(''exprType'', PStr ''Restriction''), (''onProperty'', PStr ''ex:hasOwner''),
                  (''someValuesFrom'',
                     PDict [(''exprType'', PStr ''Named''), (''iri'', PStr ''ex:Person'')]),
                  (''cardinality'', PStr ''1'')])"
  by (simp add: eval_nat_numeral example_restriction_graph_def query_defs vocab_defs
      add_filler_def filler_preds_def fq_def)

theorem restriction_fillers_present_witness:
  "\<exists>d. summarize_expression 2 example_restriction_graph (BNode ''r'') = Some (PDict d)
     \<and> map fst d = [''exprType'', ''onProperty'', ''someValuesFrom'', ''cardinality'']
     \<and> map_of d ''onProperty'' = Some (PStr ''ex:hasOwner'')"
proof -
  have b: "is_BNode (BNode ''r'')" by simp
  have rs: "is_restriction example_restriction_graph (BNode ''r'')"
    by (simp add: example_restriction_graph_def query_defs vocab_defs)
  have present: "map snd (filter (\<lambda>pk. graph_value example_restriction_graph (BNode ''r'') (fst pk) \<noteq> None)
        filler_preds) = [''someValuesFrom'', ''cardinality'']"
    by (simp add: example_restriction_graph_def query_defs vocab_defs filler_preds_def)
  have onp: "fq (graph_value example_restriction_graph (BNode ''r'') OWL_onProperty) =
      PStr ''ex:hasOwner''"
    by (simp add: example_restriction_graph_def query_defs vocab_defs fq_def)
  from restriction_fillers_present [OF b rs example_restriction_summary]
  obtain d where all: "PDict [(''exprType'', PStr ''Restriction''), (''onProperty'', PStr ''ex:hasOwner''),
                  (''someValuesFrom'',
                     PDict [(''exprType'', PStr ''Named''), (''iri'', PStr ''ex:Person'')]),
                  (''cardinality'', PStr ''1'')] = PDict d
     \<and> map fst d = [''exprType'', ''onProperty''] @
          map snd (filter (\<lambda>pk. graph_value example_restriction_graph (BNode ''r'') (fst pk) \<noteq> None)
            filler_preds)
     \<and> map_of d ''onProperty'' =
          Some (fq (graph_value example_restriction_graph (BNode ''r'') OWL_onProperty))
     \<and> (\<forall>pk \<in> set filler_preds. \<forall>val.
           graph_value example_restriction_graph (BNode ''r'') (fst pk) = Some val \<longrightarrow>
           map_of d (snd pk) =
             (if is_BNode val \<or> is_URIRef val
              then summarize_expression (2 - 1) example_restriction_graph val
              else Some (PStr (pystr val))))" ..
  note d = all [THEN conjunct1]
  note keys = all [THEN conjunct2, THEN conjunct1]
  note onpd = all [THEN conjunct2, THEN conjunct2, THEN conjunct1]
  have k: "map fst d = [''exprType'', ''onProperty'', ''someValuesFrom'', ''cardinality'']"
    unfolding keys present by simp
  have p: "map_of d ''onProperty'' = Some (PStr ''ex:hasOwner'')"
    unfolding onpd onp by simp
  have s: "summarize_expression 2 example_restriction_graph (BNode ''r'') = Some (PDict d)"
    unfolding example_restriction_summary d by simp
  show ?thesis
    by (rule exI [of _ d]) (simp only: k p s simp_thms)
qed

text \<open>
  Claim C10. An anonymous node typed \<open>owl:Restriction\<close> with no \<open>owl:onProperty\<close> triple
  still yields a Restriction record; its \<open>onProperty\<close> key is present with the value
  \<open>None\<close>, while no filler field is ever \<open>None\<close>. With no filler on the node the record
  is returned at once, and on a graph whose links have no cycle it is returned with enough
  fuel.
\<close>

theorem restriction_without_onProperty:
  assumes bn: "is_BNode n" and ty: "(n, RDF_type, OWL_Restriction) \<in> set g"
    and no: "graph_value g n OWL_onProperty = None"
  shows "(summarize_expression fuel g n = Some r \<longrightarrow>
            dict_get r ''exprType'' = Some (PStr ''Restriction'')
          \<and> dict_get r ''onProperty'' = Some PNone
          \<and> (\<forall>pk \<in> set filler_preds. dict_get r (snd pk) \<noteq> Some PNone))
       \<and> ((\<forall>pk \<in> set filler_preds. graph_value g n (fst pk) = None) \<longrightarrow>
            summarize_expression (Suc k) g n =
              Some (PDict [(''exprType'', PStr ''Restriction''), (''onProperty'', PNone)]))
       \<and> (acyclic (links g) \<longrightarrow> (\<exists>enough e. summarize_expression enough g n = Some e))"
proof (intro conjI impI)
  from ty have rs: "is_restriction g n" by (simp add: is_restriction_def)
  from bn have nb: "\<not> is_URIRef n" "\<not> is_Literal n" by (cases n; simp)+
  {
    assume res: "summarize_expression fuel g n = Some r"
    from bn rs res obtain j d where fuel: "fuel = Suc j" and r: "r = PDict d"
      and d: "fold (add_filler (summarize_expression j g) g n) filler_preds
           (Some [(''exprType'', PStr ''Restriction''),
                  (''onProperty'', fq (graph_value g n OWL_onProperty))]) = Some d"
      by (rule restriction_record)
    have "''exprType'' \<notin> set (map snd filler_preds)" using filler_keys by auto
    from fold_add_filler_old [OF d this] r
    show "dict_get r ''exprType'' = Some (PStr ''Restriction'')" by simp
    have "''onProperty'' \<notin> set (map snd filler_preds)" using filler_keys by auto
    from fold_add_filler_old [OF d this] r no
    show "dict_get r ''onProperty'' = Some PNone" by (simp add: fq_def)
    show "\<forall>pk \<in> set filler_preds. dict_get r (snd pk) \<noteq> Some PNone"
    proof
      fix pk assume pk: "pk \<in> set filler_preds"
      show "dict_get r (snd pk) \<noteq> Some PNone"
      proof (cases "graph_value g n (fst pk)")
        case None
        have keys: "map fst d = [''exprType'', ''onProperty''] @
            map snd (filter (\<lambda>pk. graph_value g n (fst pk) \<noteq> None) filler_preds)"
          using fold_add_filler_keys [OF d filler_keys_distinct] filler_keys by simp
        have "snd pk \<notin> set (map snd (filter (\<lambda>pk. graph_value g n (fst pk) \<noteq> None) filler_preds))"
        proof
          assume "snd pk \<in> set (map snd (filter (\<lambda>pk. graph_value g n (fst pk) \<noteq> None) filler_preds))"
          then obtain qk where qk: "qk \<in> set filler_preds" "graph_value g n (fst qk) \<noteq> None"
            and eq: "snd qk = snd pk" by auto
          from filler_keys_distinct have "inj_on snd (set filler_preds)"
            by (simp add: distinct_map)
          with qk(1) pk eq have "qk = pk" by (auto dest: inj_onD)
          with qk(2) None show False by simp
        qed
        moreover from pk have "snd pk \<noteq> ''exprType''" "snd pk \<noteq> ''onProperty''"
          by (auto simp add: filler_preds_def)
        ultimately have "snd pk \<notin> set (map fst d)" unfolding keys by simp
        then have "map_of d (snd pk) = None" by (simp add: map_of_eq_None_iff)
        with r show ?thesis by simp
      next
        case (Some val)
        from fold_add_filler_value [OF d filler_keys_distinct pk Some]
        have v: "map_of d (snd pk) =
            (if is_BNode val \<or> is_URIRef val then summarize_expression j g val
             else Some (fq (Some val)))" .
        show ?thesis
        proof
          assume "dict_get r (snd pk) = Some PNone"
          with r v have "(if is_BNode val \<or> is_URIRef val then summarize_expression j g val
             else Some (fq (Some val))) = Some PNone" by simp
          then show False
            by (auto simp add: fq_def split: if_splits dest: summarize_expression_is_dict)
        qed
      qed
    qed
  }
  {
    assume "\<forall>pk \<in> set filler_preds. graph_value g n (fst pk) = None"
    then show "summarize_expression (Suc k) g n =
        Some (PDict [(''exprType'', PStr ''Restriction''), (''onProperty'', PNone)])"
      using bn nb rs no by (simp add: fold_add_filler_absent fq_def)
  }
  assume "acyclic (links g)"
  then show "\<exists>enough e. summarize_expression enough g n = Some e"
    by (rule summarize_expression_acyclic)
qed

lemma example_bare_acyclic: "acyclic (links example_bare_restriction_graph)"
proof (rule acyclicI_order [where f = bnode_rank])
  have l: "links example_bare_restriction_graph = {(BNode ''e'', URIRef ''ex:Person'')}"
    by (simp add: links_def link_preds_def filler_preds_def example_bare_restriction_graph_def
        vocab_defs)
  fix a b assume "(a, b) \<in> links example_bare_restriction_graph"
  then show "bnode_rank b < bnode_rank a" unfolding l by auto
qed

theorem restriction_without_onProperty_witness:
  "(\<exists>enough e. summarize_expression enough example_bare_restriction_graph (BNode ''e'') = Some e)
   \<and> summarize_expression 2 example_bare_restriction_graph (BNode ''e'') =
     Some (PDict [(''exprType'', PStr ''Restriction''), (''onProperty'', PNone),
                  (''allValuesFrom'',
                     PDict [(''exprType'', PStr ''Named''), (''iri'', PStr ''ex:Person'')])])
   \<and> dict_get (PDict [(''exprType'', PStr ''Restriction''), (''onProperty'', PNone),
                  (''allValuesFrom'',
                     PDict [(''exprType'', PStr ''Named''), (''iri'', PStr ''ex:Person'')])])
         ''onProperty'' = Some PNone
   \<and> summarize_expression 1 example_bare_restriction_graph (BNode ''f'') =
     Some (PDict [(''exprType'', PStr ''Restriction''), (''onProperty'', PNone)])"
proof (intro conjI)
  have bn: "is_BNode (BNode ''e'')" by simp
  have ty: "(BNode ''e'', RDF_type, OWL_Restriction) \<in> set example_bare_restriction_graph"
    by (simp add: example_bare_restriction_graph_def)
  have no: "graph_value example_bare_restriction_graph (BNode ''e'') OWL_onProperty = None"
    by (simp add: example_bare_restriction_graph_def query_defs vocab_defs)
  from restriction_without_onProperty [OF bn ty no, of 1 PNone 0, THEN conjunct2, THEN conjunct2,
      rule_format, OF example_bare_acyclic]
  show "\<exists>enough e. summarize_expression enough example_bare_restriction_graph (BNode ''e'') = Some e" .
next
  let ?r = "PDict [(''exprType'', PStr ''Restriction''), (''onProperty'', PNone),
                  (''allValuesFrom'',
                     PDict [(''exprType'', PStr ''Named''), (''iri'', PStr ''ex:Person'')])]"
  show e: "summarize_expression 2 example_bare_restriction_graph (BNode ''e'') = Some ?r"
    by (simp add: eval_nat_numeral example_bare_restriction_graph_def query_defs vocab_defs
      add_filler_def filler_preds_def fq_def)
  have ty: "(BNode ''e'', RDF_type, OWL_Restriction) \<in> set example_bare_restriction_graph"
    by (simp add: example_bare_restriction_graph_def)
  have no: "graph_value example_bare_restriction_graph (BNode ''e'') OWL_onProperty = None"
    by (simp add: example_bare_restriction_graph_def query_defs vocab_defs)
  from restriction_without_onProperty [OF _ ty no, of 2 ?r] e
  show "dict_get ?r ''onProperty'' = Some PNone" by simp
next
  have ty: "(BNode ''f'', RDF_type, OWL_Restriction) \<in> set example_bare_restriction_graph"
    by (simp add: example_bare_restriction_graph_def)
  have no: "graph_value example_bare_restriction_graph (BNode ''f'') OWL_onProperty = None"
    by (simp add: example_bare_restriction_graph_def query_defs vocab_defs)
  have none: "\<forall>pk \<in> set filler_preds.
      graph_value example_bare_restriction_graph (BNode ''f'') (fst pk) = None"
    by (simp add: example_bare_restriction_graph_def query_defs vocab_defs filler_preds_def)
  from restriction_without_onProperty [OF _ ty no, of 1 PNone 0] none
  show "summarize_expression 1 example_bare_restriction_graph (BNode ''f'') =
     Some (PDict [(''exprType'', PStr ''Restriction''), (''onProperty'', PNone)])"
    by simp
qed

subsection \<open>Termination on acyclic graphs\<close>

text \<open>
  Acyclicity is needed: on a list whose rest link leads back to the link itself the helper
  raises, and the manual walk that follows returns with no fuel.
\<close>

lemma cyclic_walk_never_returns:
  "manual_walk F example_cyclic_graph (BNode ''c'') items = None"
proof (induction F arbitrary: items)
  case 0
  show ?case by simp
next
  case (Suc k)
  have "graph_value example_cyclic_graph (BNode ''c'') RDF_first = Some (URIRef ''ex:Cat'')"
    "graph_value example_cyclic_graph (BNode ''c'') RDF_rest = Some (BNode ''c'')"
    by (simp_all add: example_cyclic_graph_def graph_value_def objects_def RDF_first_def RDF_rest_def)
  then show ?case by (simp add: Suc.IH RDF_nil_def)
qed

lemma cyclic_list_never_returns: "rdf_list_to_py F example_cyclic_graph (BNode ''c'') = None"
proof (cases F)
  case 0
  then show ?thesis by (simp add: rdf_list_to_py_def)
next
  case (Suc k)
  have "graph_value example_cyclic_graph (BNode ''c'') RDF_first = Some (URIRef ''ex:Cat'')"
    "graph_value example_cyclic_graph (BNode ''c'') RDF_rest = Some (BNode ''c'')"
    by (simp_all add: example_cyclic_graph_def graph_value_def objects_def RDF_first_def RDF_rest_def)
  then have "graph_items (Suc k) example_cyclic_graph (Some (BNode ''c'')) [Some (BNode ''c'')] [] =
      Some ([URIRef ''ex:Cat''], True)"
    by (simp add: Let_def)
  then show ?thesis
    unfolding Suc by (simp add: rdf_list_to_py_def cyclic_walk_never_returns)
qed

text \<open>
  Claim C5. On a graph whose links (filler predicates, intersectionOf, unionOf, complementOf,
  oneOf, rdf:first, rdf:rest) have no cycle, \<open>summarize_expression\<close> returns on every node:
  some fuel is enough, and any larger fuel gives the same record. A node classified as BNode
  is returned with its immediate pairs without any recursive call: the least fuel is enough,
  on every graph.
\<close>

theorem summarize_expression_terminates:
  assumes "acyclic (links g)"
  shows "(\<exists>fuel r. \<forall>fuel' \<ge> fuel. summarize_expression fuel' g n = Some r)
     \<and> (expr_type g n = ''BNode'' \<longrightarrow>
          (\<forall>k. summarize_expression (Suc k) g n =
             Some (PDict [(''exprType'', PStr ''BNode''), (''props'', props_value (bnode_props g n))])))"
proof
  from summarize_expression_acyclic [OF assms, of n]
  obtain F r where r: "summarize_expression F g n = Some r" by blast
  have "\<forall>fuel' \<ge> F. summarize_expression fuel' g n = Some r"
    using summarize_expression_mono [OF r] by blast
  then show "\<exists>fuel r. \<forall>fuel' \<ge> fuel. summarize_expression fuel' g n = Some r" by blast
next
  show "expr_type g n = ''BNode'' \<longrightarrow>
          (\<forall>k. summarize_expression (Suc k) g n =
             Some (PDict [(''exprType'', PStr ''BNode''), (''props'', props_value (bnode_props g n))]))"
    by (auto simp add: expr_type_def split: if_splits)
qed

theorem summarize_expression_terminates_witness:
  "acyclic (links example_union_graph)
   \<and> (\<exists>fuel r. summarize_expression fuel example_union_graph (BNode ''u'') = Some r)
   \<and> summarize_expression 1 example_union_graph (BNode ''x'') =
       Some (PDict [(''exprType'', PStr ''BNode''),
                    (''props'', props_value (bnode_props example_union_graph (BNode ''x'')))])"
proof (intro conjI)
  show "acyclic (links example_union_graph)" by (rule example_union_acyclic)
next
  from summarize_expression_terminates [OF example_union_acyclic, of "BNode ''u''"]
  obtain fuel r where "\<forall>fuel' \<ge> fuel. summarize_expression fuel' example_union_graph (BNode ''u'') = Some r"
    by blast
  then have "summarize_expression fuel example_union_graph (BNode ''u'') = Some r" by simp
  then show "\<exists>fuel r. summarize_expression fuel example_union_graph (BNode ''u'') = Some r"
    by blast
next
  have t: "expr_type example_union_graph (BNode ''x'') = ''BNode''"
    by (simp add: expr_type_def example_union_graph_def query_defs vocab_defs)
  from summarize_expression_terminates [OF example_union_acyclic, of "BNode ''x''"] t
  have "\<forall>k. summarize_expression (Suc k) example_union_graph (BNode ''x'') =
       Some (PDict [(''exprType'', PStr ''BNode''),
                    (''props'', props_value (bnode_props example_union_graph (BNode ''x'')))])"
    by simp
  then show "summarize_expression 1 example_union_graph (BNode ''x'') =
       Some (PDict [(''exprType'', PStr ''BNode''),
                    (''props'', props_value (bnode_props example_union_graph (BNode ''x'')))])"
    by simp
qed

subsection \<open>The annotation collector\<close>

lemma collect_annotations_fold:
  "collect_annotations g s = fold annotate_step (predicate_objects g s) []"
proof -
  have "(\<lambda>(p, ob) ann. if p \<in> set structural_preds then ann
             else setdefault_append ann (pystr p) (fq (Some ob))) = annotate_step"
    by (simp add: fun_eq_iff annotate_step_def)
  then show ?thesis by (simp add: collect_annotations_def)
qed

lemma map_of_annotate_step:
  "map_of (annotate_step po d) key =
     (if fst po \<notin> set structural_preds \<and> pystr (fst po) = key
      then Some ((case map_of d key of None \<Rightarrow> [] | Some vs \<Rightarrow> vs) @ [fq (Some (snd po))])
      else map_of d key)"
  by (simp add: annotate_step_def map_of_setdefault_append split: option.splits)

lemma fold_annotate_map_of:
  "map_of (fold annotate_step pos d) key =
     (let old = (case map_of d key of None \<Rightarrow> [] | Some vs \<Rightarrow> vs);
          new = map (\<lambda>po. fq (Some (snd po)))
                  (filter (\<lambda>po. fst po \<notin> set structural_preds \<and> pystr (fst po) = key) pos)
      in if map_of d key = None \<and> new = [] then None else Some (old @ new))"
proof (induction pos arbitrary: d)
  case Nil
  then show ?case by (simp add: Let_def split: option.splits)
next
  case (Cons po pos)
  show ?case
    by (simp add: Cons.IH map_of_annotate_step Let_def split: option.splits)
qed

lemma collect_annotations_kept:
  "map_of (collect_annotations g s) key =
     (if kept_objects g s key = [] then None else Some (kept_objects g s key))"
  by (simp add: collect_annotations_fold fold_annotate_map_of kept_objects_def Let_def)

lemma pystr_URIRef_inj: "is_URIRef p \<Longrightarrow> is_URIRef q \<Longrightarrow> pystr p = pystr q \<Longrightarrow> p = q"
  by (cases p; cases q) simp_all

lemma structural_preds_URIRef: "q \<in> set structural_preds \<Longrightarrow> is_URIRef q"
  by (auto simp add: structural_preds_def vocab_defs)

text \<open>
  Claim C3, as stated, fails: labels, comments and inverse links are kept in the annotations
  although the record has fields of their own for them. The label of the class below is both
  in \<open>labels\<close> and in \<open>annotations\<close>, the inverse of the property both in \<open>inverseOf\<close> and in
  \<open>annotations\<close>.
\<close>

theorem annotations_duplicate_counterexample:
  "gather_terms 1 example_label_graph =
     Some [\<lparr>iri = ''ex:Dog'', types = [''Class''], labels = [''Dog''], altLabels = [], comments = [],
            annotations = [(''http://www.w3.org/2000/01/rdf-schema#label'', [PStr ''Dog''])],
            domains = [], ranges = [], subClassOf = [], equivalentClass = [],
            propertyCharacteristics = [], subPropertyOf = [], inverseOf = [], individualTypes = []\<rparr>,
           \<lparr>iri = ''ex:owns'', types = [''ObjectProperty''], labels = [], altLabels = [], comments = [],
            annotations = [(''http://www.w3.org/2002/07/owl#inverseOf'', [PStr ''ex:ownedBy''])],
            domains = [], ranges = [], subClassOf = [], equivalentClass = [],
            propertyCharacteristics = [], subPropertyOf = [], inverseOf = [''ex:ownedBy''],
            individualTypes = []\<rparr>]"
  by code_simp

text \<open>
  Claim C3, amended. For every subject the annotations hold, under each key, the string forms
  of the subject's objects under the predicates of that string form other than the six
  structural ones (type, subClassOf, equivalentClass, domain, range, subPropertyOf), in store
  order; so when the subject's predicates are named resources, none of the six has an entry.
  Predicates the record also captures in other fields (labels, comments, inverse links) are
  not excluded.
\<close>

theorem collect_annotations_excludes:
  "map_of (collect_annotations g s) key =
     (if kept_objects g s key = [] then None else Some (kept_objects g s key))
   \<and> ((\<forall>po \<in> set (predicate_objects g s). is_URIRef (fst po)) \<longrightarrow>
        (\<forall>q \<in> set structural_preds. map_of (collect_annotations g s) (pystr q) = None))"
proof (intro conjI impI ballI)
  show "map_of (collect_annotations g s) key =
     (if kept_objects g s key = [] then None else Some (kept_objects g s key))"
    by (rule collect_annotations_kept)
next
  fix q
  assume named: "\<forall>po \<in> set (predicate_objects g s). is_URIRef (fst po)"
    and q: "q \<in> set structural_preds"
  have "filter (\<lambda>po. fst po \<notin> set structural_preds \<and> pystr (fst po) = pystr q)
          (predicate_objects g s) = []"
  proof (rule filter_False, rule ballI)
    fix po assume po: "po \<in> set (predicate_objects g s)"
    show "\<not> (fst po \<notin> set structural_preds \<and> pystr (fst po) = pystr q)"
    proof
      assume a: "fst po \<notin> set structural_preds \<and> pystr (fst po) = pystr q"
      from named po have "is_URIRef (fst po)" by simp
      with a structural_preds_URIRef [OF q] have "fst po = q" by (auto intro: pystr_URIRef_inj)
      with a q show False by simp
    qed
  qed
  then have "kept_objects g s (pystr q) = []" by (simp add: kept_objects_def)
  then show "map_of (collect_annotations g s) (pystr q) = None"
    by (simp add: collect_annotations_kept)
qed

theorem collect_annotations_excludes_witness:
  "map_of (collect_annotations example_label_graph (URIRef ''ex:Dog'')) (pystr RDF_type) = None
   \<and> map_of (collect_annotations example_label_graph (URIRef ''ex:Dog'')) (pystr RDFS_label) =
       Some [PStr ''Dog'']"
proof
  have named: "\<forall>po \<in> set (predicate_objects example_label_graph (URIRef ''ex:Dog'')). is_URIRef (fst po)"
    by (simp add: example_label_graph_def predicate_objects_def vocab_defs)
  have ty: "RDF_type \<in> set structural_preds" by (simp add: structural_preds_def)
  from collect_annotations_excludes [of example_label_graph "URIRef ''ex:Dog''" "[]"] named ty
  show "map_of (collect_annotations example_label_graph (URIRef ''ex:Dog'')) (pystr RDF_type) = None"
    by blast
next
  have "kept_objects example_label_graph (URIRef ''ex:Dog'') (pystr RDFS_label) = [PStr ''Dog'']"
    by (simp add: kept_objects_def example_label_graph_def predicate_objects_def
        structural_preds_def vocab_defs fq_def)
  with collect_annotations_excludes [of example_label_graph "URIRef ''ex:Dog''" "pystr RDFS_label"]
  show "map_of (collect_annotations example_label_graph (URIRef ''ex:Dog'')) (pystr RDFS_label) =
       Some [PStr ''Dog'']"
    by simp
qed

subsection \<open>The discovered terms\<close>

lemma in_terms_iff: "in_terms ts s = (\<exists>cat. (cat, s) \<in> set ts)"
  by (force simp add: in_terms_def list_ex_iff)

lemma fold_implicit_set:
  "\<forall>t \<in> set ts. fst t = ''Class'' \<Longrightarrow>
   set (fold (add_implicit_class g) xs ts) =
     set ts \<union> {(''Class'', s) | s. s \<in> set xs \<and> is_URIRef s \<and>
        (has_pred g s RDFS_subClassOf \<or> has_pred g s OWL_equivalentClass)}"
proof (induction xs arbitrary: ts)
  case Nil
  then show ?case by simp
next
  case (Cons x xs)
  have cls: "\<forall>t \<in> set (add_implicit_class g x ts). fst t = ''Class''"
    using Cons.prems by (simp add: add_implicit_class_def)
  have step: "set (add_implicit_class g x ts) =
      set ts \<union> (if is_URIRef x \<and> (has_pred g x RDFS_subClassOf \<or> has_pred g x OWL_equivalentClass)
                 then {(''Class'', x)} else {})"
    using Cons.prems by (auto simp add: add_implicit_class_def in_terms_iff)
  show ?case
    unfolding fold_simps Cons.IH [OF cls] step by auto
qed

lemma fold_implicit_distinct:
  "distinct ts \<Longrightarrow> \<forall>t \<in> set ts. fst t = ''Class'' \<Longrightarrow>
   distinct (fold (add_implicit_class g) xs ts)"
proof (induction xs arbitrary: ts)
  case Nil
  then show ?case by simp
next
  case (Cons x xs)
  have "distinct (add_implicit_class g x ts)"
    using Cons.prems by (auto simp add: add_implicit_class_def in_terms_iff)
  moreover have "\<forall>t \<in> set (add_implicit_class g x ts). fst t = ''Class''"
    using Cons.prems by (simp add: add_implicit_class_def)
  ultimately show ?case using Cons.IH by simp
qed

lemma fold_individual_set:
  "set (fold (add_individual g) xs ts) =
     set ts \<union> {(''Individual'', s) | s. s \<in> set xs \<and> is_URIRef s \<and> \<not> in_terms ts s \<and>
        objects g s RDF_type \<noteq> []}"
proof (induction xs arbitrary: ts)
  case Nil
  then show ?case by simp
next
  case (Cons x xs)
  let ?ts = "add_individual g x ts"
  have step: "set ?ts = set ts \<union>
      (if is_URIRef x \<and> \<not> in_terms ts x \<and> objects g x RDF_type \<noteq> []
       then {(''Individual'', x)} else {})"
    by (simp add: add_individual_def)
  have inT: "\<And>s. in_terms ?ts s =
      (in_terms ts s \<or> (s = x \<and> is_URIRef x \<and> \<not> in_terms ts x \<and> objects g x RDF_type \<noteq> []))"
    by (auto simp add: in_terms_iff step)
  show ?case
    unfolding fold_simps Cons.IH [of ?ts] step inT by auto
qed

lemma fold_individual_distinct:
  "distinct ts \<Longrightarrow> distinct (fold (add_individual g) xs ts)"
proof (induction xs arbitrary: ts)
  case Nil
  then show ?case by simp
next
  case (Cons x xs)
  have "distinct (add_individual g x ts)"
    using Cons.prems by (auto simp add: add_individual_def in_terms_iff)
  then show ?case using Cons.IH by simp
qed

lemma discover_terms_stages:
  "discover_terms g =
     fold (add_individual g) (remdups (subjects_of_pred g RDF_type)) (declared_terms g)"
  by (simp add: discover_terms_def declared_terms_def class_terms_def Let_def)

lemma pair_image_iff: "((c, s) \<in> Pair c' ` A) = (c = c' \<and> s \<in> A)"
  by auto

lemma set_class_terms:
  "set (class_terms g) = Pair ''Class'' ` {s. is_URIRef s \<and> class_like g s}"
proof -
  have "\<forall>t \<in> set (map (Pair ''Class'') (typed_subjects g OWL_Class)). fst t = ''Class''"
    by simp
  from fold_implicit_set [OF this, of g "remdups (all_subjects g)"]
  show ?thesis
    unfolding class_terms_def
    by (auto simp add: set_typed_subjects class_like_def dest: has_pred_subject)
qed

lemma distinct_class_terms: "distinct (class_terms g)"
  unfolding class_terms_def
  by (rule fold_implicit_distinct) (simp_all add: distinct_map distinct_typed_subjects inj_on_def)

lemma explicit_roles_iff:
  "cat \<in> set (explicit_roles g s) =
     ((cat = ''Class'' \<and> class_like g s) \<or>
      (cat = ''ObjectProperty'' \<and> (s, RDF_type, OWL_ObjectProperty) \<in> set g) \<or>
      (cat = ''DatatypeProperty'' \<and> (s, RDF_type, OWL_DatatypeProperty) \<in> set g) \<or>
      (cat = ''AnnotationProperty'' \<and> (s, RDF_type, OWL_AnnotationProperty) \<in> set g))"
  unfolding explicit_roles_def set_append by (simp only: Un_iff) simp

lemma in_declared_terms_iff:
  "((cat, s) \<in> set (declared_terms g)) = (is_URIRef s \<and> cat \<in> set (explicit_roles g s))"
  unfolding declared_terms_def explicit_roles_iff set_append Un_iff set_class_terms set_map
    set_typed_subjects pair_image_iff mem_Collect_eq
  by argo

lemma set_declared_terms:
  "set (declared_terms g) =
     {(cat, s) | cat s. is_URIRef s \<and> cat \<in> set (explicit_roles g s)}"
  using in_declared_terms_iff [of _ _ g] by auto

lemma distinct_declared_terms: "distinct (declared_terms g)"
  unfolding declared_terms_def
  by (auto simp add: distinct_class_terms set_class_terms distinct_map distinct_typed_subjects
      inj_on_def)

lemma in_declared_terms:
  "in_terms (declared_terms g) s = (is_URIRef s \<and> explicit_roles g s \<noteq> [])"
  unfolding in_terms_iff set_declared_terms
  by (cases "explicit_roles g s") auto

lemma explicit_roles_not_individual: "''Individual'' \<notin> set (explicit_roles g s)"
  by (simp add: explicit_roles_def)

lemma set_discover_terms:
  "set (discover_terms g) = {(cat, s) | cat s. is_URIRef s \<and> cat \<in> set (term_roles g s)}"
proof -
  have ind: "\<And>s. (objects g s RDF_type \<noteq> []) = has_pred g s RDF_type"
    by (simp add: has_pred_def)
  show ?thesis
    unfolding discover_terms_stages fold_individual_set set_declared_terms in_declared_terms
    by (auto simp add: term_roles_def set_subjects_of_pred ind split: if_splits)
qed

lemma distinct_discover_terms: "distinct (discover_terms g)"
  unfolding discover_terms_stages
  by (rule fold_individual_distinct) (rule distinct_declared_terms)

lemma discover_terms_named: "t \<in> set (discover_terms g) \<Longrightarrow> is_URIRef (snd t)"
  by (auto simp add: set_discover_terms)

lemma term_roles_nonempty: "(term_roles g n \<noteq> []) = (class_like g n \<or> has_pred g n RDF_type)"
  by (auto simp add: term_roles_def explicit_roles_def dest: typed_has_type)

lemma distinct_term_roles: "distinct (term_roles g n)"
  by (simp add: term_roles_def explicit_roles_def)

subsection \<open>One round of the loop over the terms\<close>

lemma summarize_all_Some_iff: "(summarize_all f xs = Some es) = (map f xs = map Some es)"
proof (induction xs arbitrary: es)
  case Nil
  then show ?case by auto
next
  case (Cons x xs)
  show ?case
  proof (cases "f x")
    case None
    then show ?thesis by (cases es) auto
  next
    case (Some y)
    show ?thesis
    proof (cases "summarize_all f xs")
      case None
      with Cons.IH have "\<And>es'. map f xs \<noteq> map Some es'" by simp
      with None Some show ?thesis by (cases es) auto
    next
      case (Some ys)
      with Cons.IH \<open>f x = Some y\<close> show ?thesis by (cases es) auto
    qed
  qed
qed

lemma process_term_result:
  assumes "process_term fuel g es t = Some es'"
  obtains e where "es' = dict_set es (pystr (snd t)) e"
    and "iri e = iri (entry_or_new es (pystr (snd t)))"
    and "types e = append_new (types (entry_or_new es (pystr (snd t)))) (fst t)"
    and "subClassOf e =
           subClassOf (entry_or_new es (pystr (snd t))) @ summaries fuel g RDFS_subClassOf t"
    and "equivalentClass e =
           equivalentClass (entry_or_new es (pystr (snd t))) @ summaries fuel g OWL_equivalentClass t"
    and "fst t = ''Class'' \<longrightarrow>
           summarize_all (summarize_expression fuel g) (objects g (snd t) RDFS_subClassOf) \<noteq> None \<and>
           summarize_all (summarize_expression fuel g) (objects g (snd t) OWL_equivalentClass) \<noteq> None"
proof -
  let ?e0 = "entry_or_new es (pystr (snd t))"
  let ?e1 = "merge_property g (fst t) (snd t) (merge_common g (fst t) (snd t) ?e0)"
  from assms obtain e2 where m: "merge_class fuel g (fst t) (snd t) ?e1 = Some e2"
    and es': "es' = dict_set es (pystr (snd t)) (merge_individual g (fst t) (snd t) e2)"
    by (simp add: process_term_def entry_or_new_def Let_def split: option.splits)
  have e1: "iri ?e1 = iri ?e0" "types ?e1 = append_new (types ?e0) (fst t)"
    "subClassOf ?e1 = subClassOf ?e0" "equivalentClass ?e1 = equivalentClass ?e0"
    by (simp_all add: merge_property_def merge_common_def)
  from m have e2: "iri e2 = iri ?e1" "types e2 = types ?e1"
    "subClassOf e2 = subClassOf ?e1 @ summaries fuel g RDFS_subClassOf t"
    "equivalentClass e2 = equivalentClass ?e1 @ summaries fuel g OWL_equivalentClass t"
    by (auto simp add: merge_class_def summaries_def split: if_splits option.splits)
  from m have ok: "fst t = ''Class'' \<longrightarrow>
           summarize_all (summarize_expression fuel g) (objects g (snd t) RDFS_subClassOf) \<noteq> None \<and>
           summarize_all (summarize_expression fuel g) (objects g (snd t) OWL_equivalentClass) \<noteq> None"
    by (simp add: merge_class_def split: option.splits if_splits)
  let ?e = "merge_individual g (fst t) (snd t) e2"
  have "iri ?e = iri e2" "types ?e = types e2" "subClassOf ?e = subClassOf e2"
    "equivalentClass ?e = equivalentClass e2"
    by (simp_all add: merge_individual_def)
  with e1 e2 es' ok that [of ?e] show thesis by simp
qed

lemma field_at_dict_set:
  "field_at f (dict_set es i e) j = (if j = i then f e else field_at f es j)"
  by (simp add: field_at_def map_of_dict_set)

lemma field_at_new: "f (new_entry i) = [] \<Longrightarrow> f (entry_or_new es i) = field_at f es i"
  by (simp add: field_at_def entry_or_new_def split: option.splits)

lemma new_entry_fields:
  "types (new_entry i) = []" "subClassOf (new_entry i) = []" "equivalentClass (new_entry i) = []"
  "iri (new_entry i) = i"
  by (simp_all add: new_entry_def)

lemma list_all_dict_set: "list_all P es \<Longrightarrow> P (i, e) \<Longrightarrow> list_all P (dict_set es i e)"
  by (induction es) auto

lemma keyed_dict_set:
  "keyed es \<Longrightarrow> iri e = i \<Longrightarrow> keyed (dict_set es i e)"
  unfolding keyed_def by (simp add: keys_dict_set list_all_dict_set)

lemma keyed_iri: "keyed es \<Longrightarrow> iri (entry_or_new es i) = i"
proof -
  assume k: "keyed es"
  show ?thesis
  proof (cases "map_of es i")
    case None
    then show ?thesis by (simp add: entry_or_new_def new_entry_fields)
  next
    case (Some e)
    then have "(i, e) \<in> set es" by (rule map_of_SomeD)
    with k have "iri e = i" by (auto simp add: keyed_def list_all_iff)
    with Some show ?thesis by (simp add: entry_or_new_def)
  qed
qed

lemma process_term_keyed:
  assumes "process_term fuel g es t = Some es'" and "keyed es"
  shows "keyed es'"
proof -
  from assms(1) obtain e where "es' = dict_set es (pystr (snd t)) e"
    and "iri e = iri (entry_or_new es (pystr (snd t)))"
    by (rule process_term_result)
  with keyed_iri [OF assms(2), of "pystr (snd t)"] have "iri e = pystr (snd t)" by simp
  from keyed_dict_set [OF assms(2) this] \<open>es' = dict_set es (pystr (snd t)) e\<close>
  show ?thesis by simp
qed

lemma process_term_keys:
  assumes "process_term fuel g es t = Some es'"
  shows "set (map fst es') = insert (pystr (snd t)) (set (map fst es))"
proof -
  from assms obtain e where "es' = dict_set es (pystr (snd t)) e"
    by (rule process_term_result)
  then show ?thesis by (auto simp add: keys_dict_set)
qed

lemma process_term_types:
  assumes "process_term fuel g es t = Some es'"
  shows "field_at types es' j =
     (if j = pystr (snd t) then append_new (field_at types es j) (fst t) else field_at types es j)"
proof -
  from assms obtain e where "es' = dict_set es (pystr (snd t)) e"
    and "types e = append_new (types (entry_or_new es (pystr (snd t)))) (fst t)"
    by (rule process_term_result)
  then show ?thesis
    by (simp add: field_at_dict_set field_at_new new_entry_fields)
qed

lemma process_term_subClassOf:
  assumes "process_term fuel g es t = Some es'"
  shows "field_at subClassOf es' j =
     field_at subClassOf es j @ (if j = pystr (snd t) then summaries fuel g RDFS_subClassOf t else [])"
proof -
  from assms obtain e where "es' = dict_set es (pystr (snd t)) e"
    and "subClassOf e =
           subClassOf (entry_or_new es (pystr (snd t))) @ summaries fuel g RDFS_subClassOf t"
    by (rule process_term_result)
  then show ?thesis
    by (simp add: field_at_dict_set field_at_new new_entry_fields)
qed

lemma process_term_equivalentClass:
  assumes "process_term fuel g es t = Some es'"
  shows "field_at equivalentClass es' j =
     field_at equivalentClass es j @
       (if j = pystr (snd t) then summaries fuel g OWL_equivalentClass t else [])"
proof -
  from assms obtain e where "es' = dict_set es (pystr (snd t)) e"
    and "equivalentClass e =
           equivalentClass (entry_or_new es (pystr (snd t))) @ summaries fuel g OWL_equivalentClass t"
    by (rule process_term_result)
  then show ?thesis
    by (simp add: field_at_dict_set field_at_new new_entry_fields)
qed

subsection \<open>The whole loop\<close>

lemma process_terms_Cons:
  assumes "process_terms fuel g es (t # ts) = Some es'"
  obtains es1 where "process_term fuel g es t = Some es1"
    and "process_terms fuel g es1 ts = Some es'"
  using assms by (cases "process_term fuel g es t") auto

lemma process_terms_keyed:
  "process_terms fuel g es ts = Some es' \<Longrightarrow> keyed es \<Longrightarrow> keyed es'"
proof (induction ts arbitrary: es)
  case Nil
  then show ?case by simp
next
  case (Cons t ts)
  from Cons.prems(1) obtain es1 where 1: "process_term fuel g es t = Some es1"
    and 2: "process_terms fuel g es1 ts = Some es'"
    by (rule process_terms_Cons)
  from process_term_keyed [OF 1 Cons.prems(2)] Cons.IH [OF 2] show ?case by simp
qed

lemma process_terms_keys:
  "process_terms fuel g es ts = Some es' \<Longrightarrow>
   set (map fst es') = set (map fst es) \<union> (\<lambda>t. pystr (snd t)) ` set ts"
proof (induction ts arbitrary: es)
  case Nil
  then show ?case by simp
next
  case (Cons t ts)
  from Cons.prems(1) obtain es1 where 1: "process_term fuel g es t = Some es1"
    and 2: "process_terms fuel g es1 ts = Some es'"
    by (rule process_terms_Cons)
  from process_term_keys [OF 1] Cons.IH [OF 2] show ?case by simp
qed

lemma set_append_new: "set (append_new xs x) = insert x (set xs)"
  by (auto simp add: append_new_def)

lemma distinct_append_new: "distinct xs \<Longrightarrow> distinct (append_new xs x)"
  by (simp add: append_new_def)

lemma process_terms_types:
  "process_terms fuel g es ts = Some es' \<Longrightarrow>
   set (field_at types es' j) =
     set (field_at types es j) \<union> fst ` {t \<in> set ts. pystr (snd t) = j}"
proof (induction ts arbitrary: es)
  case Nil
  then show ?case by simp
next
  case (Cons t ts)
  from Cons.prems(1) obtain es1 where 1: "process_term fuel g es t = Some es1"
    and 2: "process_terms fuel g es1 ts = Some es'"
    by (rule process_terms_Cons)
  have "set (field_at types es1 j) =
      set (field_at types es j) \<union> (if j = pystr (snd t) then {fst t} else {})"
    by (simp add: process_term_types [OF 1] set_append_new)
  with Cons.IH [OF 2] show ?case by auto
qed

lemma process_terms_types_distinct:
  "process_terms fuel g es ts = Some es' \<Longrightarrow> distinct (field_at types es j) \<Longrightarrow>
   distinct (field_at types es' j)"
proof (induction ts arbitrary: es)
  case Nil
  then show ?case by simp
next
  case (Cons t ts)
  from Cons.prems(1) obtain es1 where 1: "process_term fuel g es t = Some es1"
    and 2: "process_terms fuel g es1 ts = Some es'"
    by (rule process_terms_Cons)
  have "distinct (field_at types es1 j)"
    using Cons.prems(2) by (auto simp add: process_term_types [OF 1] intro: distinct_append_new)
  with Cons.IH [OF 2] show ?case by simp
qed

lemma process_terms_subClassOf:
  "process_terms fuel g es ts = Some es' \<Longrightarrow>
   field_at subClassOf es' j =
     field_at subClassOf es j @
       concat (map (summaries fuel g RDFS_subClassOf) (filter (\<lambda>t. pystr (snd t) = j) ts))"
proof (induction ts arbitrary: es)
  case Nil
  then show ?case by simp
next
  case (Cons t ts)
  from Cons.prems(1) obtain es1 where 1: "process_term fuel g es t = Some es1"
    and 2: "process_terms fuel g es1 ts = Some es'"
    by (rule process_terms_Cons)
  show ?case
    by (simp add: Cons.IH [OF 2] process_term_subClassOf [OF 1])
qed

lemma process_terms_equivalentClass:
  "process_terms fuel g es ts = Some es' \<Longrightarrow>
   field_at equivalentClass es' j =
     field_at equivalentClass es j @
       concat (map (summaries fuel g OWL_equivalentClass) (filter (\<lambda>t. pystr (snd t) = j) ts))"
proof (induction ts arbitrary: es)
  case Nil
  then show ?case by simp
next
  case (Cons t ts)
  from Cons.prems(1) obtain es1 where 1: "process_term fuel g es t = Some es1"
    and 2: "process_terms fuel g es1 ts = Some es'"
    by (rule process_terms_Cons)
  show ?case
    by (simp add: Cons.IH [OF 2] process_term_equivalentClass [OF 1])
qed

lemma process_terms_summarized:
  "process_terms fuel g es ts = Some es' \<Longrightarrow> t \<in> set ts \<Longrightarrow> fst t = ''Class'' \<Longrightarrow>
   summarize_all (summarize_expression fuel g) (objects g (snd t) RDFS_subClassOf) \<noteq> None \<and>
   summarize_all (summarize_expression fuel g) (objects g (snd t) OWL_equivalentClass) \<noteq> None"
proof (induction ts arbitrary: es)
  case Nil
  then show ?case by simp
next
  case (Cons u ts)
  from Cons.prems(1) obtain es1 where 1: "process_term fuel g es u = Some es1"
    and 2: "process_terms fuel g es1 ts = Some es'"
    by (rule process_terms_Cons)
  show ?case
  proof (cases "t = u")
    case True
    from 1 obtain e :: entry where "fst u = ''Class'' \<longrightarrow>
           summarize_all (summarize_expression fuel g) (objects g (snd u) RDFS_subClassOf) \<noteq> None \<and>
           summarize_all (summarize_expression fuel g) (objects g (snd u) OWL_equivalentClass) \<noteq> None"
      by (rule process_term_result)
    with True Cons.prems(3) show ?thesis by simp
  next
    case False
    with Cons.prems(2) have "t \<in> set ts" by simp
    from Cons.IH [OF 2 this Cons.prems(3)] show ?thesis .
  qed
qed

lemma concat_single:
  "distinct ts \<Longrightarrow> \<forall>t \<in> set ts. t \<noteq> t0 \<longrightarrow> f t = [] \<Longrightarrow>
   concat (map f ts) = (if t0 \<in> set ts then f t0 else [])"
  by (induction ts) auto

subsection \<open>The gathered records\<close>

lemma keyed_iris: "keyed es \<Longrightarrow> map iri (map snd es) = map fst es"
  by (induction es) (auto simp add: keyed_def)

lemma keyed_field:
  assumes "keyed es" and "e \<in> set (map snd es)"
  shows "field_at f es (iri e) = f e"
proof -
  from assms(2) obtain i where ie: "(i, e) \<in> set es" by auto
  with assms(1) have "iri e = i" by (auto simp add: keyed_def list_all_iff)
  moreover from assms(1) ie have "map_of es i = Some e" by (simp add: keyed_def)
  ultimately show ?thesis by (simp add: field_at_def)
qed

lemma keyed_Nil: "keyed []"
  by (simp add: keyed_def)

lemma gather_terms_entries:
  assumes "gather_terms fuel g = Some recs"
  obtains es where "process_terms fuel g [] (discover_terms g) = Some es"
    and "recs = map snd es" and "keyed es"
proof -
  from assms obtain es where p: "process_terms fuel g [] (discover_terms g) = Some es"
    and r: "recs = map snd es"
    by (auto simp add: gather_terms_def)
  from process_terms_keyed [OF p keyed_Nil] p r that show thesis by blast
qed

lemma named_pystr: "is_URIRef s \<Longrightarrow> s = URIRef (pystr s)"
  by (cases s) simp_all

lemma in_discover_terms_iff:
  "((cat, s) \<in> set (discover_terms g)) = (is_URIRef s \<and> cat \<in> set (term_roles g s))"
  by (simp add: set_discover_terms)

lemma discovered_iff: "discovered g s = (\<exists>cat. (cat, s) \<in> set (discover_terms g))"
proof -
  have "(\<exists>cat. cat \<in> set (term_roles g s)) = (term_roles g s \<noteq> [])"
    by (simp add: ex_in_conv)
  then show ?thesis
    by (simp add: in_discover_terms_iff discovered_def term_roles_nonempty)
qed

lemma discovered_keys:
  "(\<lambda>t. pystr (snd t)) ` set (discover_terms g) = {pystr n | n. discovered g n}"
  unfolding discovered_iff by force

lemma discovered_roles:
  "fst ` {t \<in> set (discover_terms g). pystr (snd t) = i} = set (term_roles g (URIRef i))"
proof (rule set_eqI)
  fix cat
  have "(cat \<in> fst ` {t \<in> set (discover_terms g). pystr (snd t) = i}) =
      (\<exists>s. (cat, s) \<in> set (discover_terms g) \<and> pystr s = i)"
    by force
  also have "\<dots> = (cat \<in> set (term_roles g (URIRef i)))"
  proof
    assume "\<exists>s. (cat, s) \<in> set (discover_terms g) \<and> pystr s = i"
    then obtain s where s: "is_URIRef s" "cat \<in> set (term_roles g s)" "pystr s = i"
      unfolding in_discover_terms_iff by auto
    from named_pystr [OF s(1)] s(3) have "s = URIRef i" by simp
    with s(2) show "cat \<in> set (term_roles g (URIRef i))" by simp
  next
    assume "cat \<in> set (term_roles g (URIRef i))"
    then have "(cat, URIRef i) \<in> set (discover_terms g) \<and> pystr (URIRef i) = i"
      unfolding in_discover_terms_iff by simp
    then show "\<exists>s. (cat, s) \<in> set (discover_terms g) \<and> pystr s = i" ..
  qed
  finally show "(cat \<in> fst ` {t \<in> set (discover_terms g). pystr (snd t) = i}) =
      (cat \<in> set (term_roles g (URIRef i)))" .
qed

lemma process_term_total:
  assumes "\<And>n p. \<exists>es. summarize_all (summarize_expression F g) (objects g n p) = Some es"
  shows "\<exists>es'. process_term F g es t = Some es'"
proof -
  let ?e = "merge_property g (fst t) (snd t) (merge_common g (fst t) (snd t)
      (case map_of es (pystr (snd t)) of None \<Rightarrow> new_entry (pystr (snd t)) | Some e \<Rightarrow> e))"
  from assms obtain sups eqs where
    "summarize_all (summarize_expression F g) (objects g (snd t) RDFS_subClassOf) = Some sups"
    "summarize_all (summarize_expression F g) (objects g (snd t) OWL_equivalentClass) = Some eqs"
    by blast
  then have "\<exists>e'. merge_class F g (fst t) (snd t) ?e = Some e'"
    by (simp add: merge_class_def)
  then obtain e' where "merge_class F g (fst t) (snd t) ?e = Some e'" ..
  then show ?thesis by (simp add: process_term_def Let_def)
qed

lemma process_terms_total:
  assumes "\<And>n p. \<exists>es. summarize_all (summarize_expression F g) (objects g n p) = Some es"
  shows "\<exists>es'. process_terms F g es ts = Some es'"
proof (induction ts arbitrary: es)
  case Nil
  show ?case by simp
next
  case (Cons t ts)
  from process_term_total [OF assms, of es t]
  obtain es1 where "process_term F g es t = Some es1" by blast
  with Cons [of es1] show ?case by simp
qed

lemma gather_terms_acyclic:
  assumes ac: "acyclic (links g)"
  shows "\<exists>fuel recs. gather_terms fuel g = Some recs"
proof -
  let ?obs = "map (\<lambda>t. snd (snd t)) g"
  have "\<forall>x \<in> set ?obs. \<exists>F r. summarize_expression F g x = Some r"
    using summarize_expression_acyclic [OF ac] by blast
  from common_fuel [OF this] obtain F
    where F: "\<forall>x \<in> set ?obs. \<exists>r. summarize_expression F g x = Some r" by blast
  have tot: "\<exists>es. summarize_all (summarize_expression F g) (objects g n p) = Some es" for n p
  proof (rule summarize_all_total, rule ballI)
    fix x assume "x \<in> set (objects g n p)"
    then have "(n, p, x) \<in> set g" by (simp add: set_objects)
    then have "x \<in> set ?obs" by force
    with F show "\<exists>r. summarize_expression F g x = Some r" by blast
  qed
  from process_terms_total [OF tot, of "[]" "discover_terms g"]
  obtain es where "process_terms F g [] (discover_terms g) = Some es" by blast
  then have "gather_terms F g = Some (map snd es)" by (simp add: gather_terms_def)
  then show ?thesis by blast
qed

lemma gathered_records:
  assumes "gather_terms fuel g = Some recs"
  shows "distinct (map iri recs)
     \<and> set (map iri recs) = {pystr n | n. discovered g n}
     \<and> (\<forall>e \<in> set recs. distinct (types e) \<and> set (types e) = set (term_roles g (URIRef (iri e))))"
proof -
  from assms obtain es where p: "process_terms fuel g [] (discover_terms g) = Some es"
    and r: "recs = map snd es" and k: "keyed es"
    by (rule gather_terms_entries)
  have iris: "map iri recs = map fst es" unfolding r using k by (rule keyed_iris)
  have 1: "distinct (map iri recs)" unfolding iris using k by (simp add: keyed_def)
  have 2: "set (map iri recs) = {pystr n | n. discovered g n}"
    unfolding iris process_terms_keys [OF p] discovered_keys by simp
  have 3: "distinct (types e) \<and> set (types e) = set (term_roles g (URIRef (iri e)))"
    if e: "e \<in> set recs" for e
  proof -
    from e r have e': "e \<in> set (map snd es)" by simp
    have f: "field_at types es (iri e) = types e" using k e' by (rule keyed_field)
    have "distinct (field_at types es (iri e))"
      using p by (rule process_terms_types_distinct) (simp add: field_at_def)
    moreover have "set (field_at types es (iri e)) = set (term_roles g (URIRef (iri e)))"
      unfolding process_terms_types [OF p] discovered_roles by (simp add: field_at_def)
    ultimately show ?thesis unfolding f by simp
  qed
  from 1 2 3 show ?thesis by blast
qed

text \<open>
  Claim C7. The gatherer returns one record per distinct IRI: the IRIs of the records are
  pairwise distinct and are exactly the IRIs of the named resources that are typed, or are the
  subject of a subClassOf or equivalentClass triple; and the \<open>types\<close> of each record hold,
  without duplicates, exactly the roles the resource matches (Class, ObjectProperty,
  DatatypeProperty, AnnotationProperty, or Individual when it matches none of these). On a
  graph whose links have no cycle the gatherer returns, with enough fuel.
\<close>

theorem one_record_per_term:
  "(acyclic (links g) \<longrightarrow> (\<exists>enough rs. gather_terms enough g = Some rs))
   \<and> (gather_terms fuel g = Some recs \<longrightarrow>
        distinct (map iri recs)
      \<and> set (map iri recs) = {pystr n | n. discovered g n}
      \<and> (\<forall>e \<in> set recs.
            distinct (types e) \<and> set (types e) = set (term_roles g (URIRef (iri e)))))"
  using gather_terms_acyclic [of g] gathered_records [of fuel g recs] by blast

lemma example_roles_terms:
  "gather_terms 1 example_roles_graph =
     Some [\<lparr>iri = ''ex:A'', types = [''Class'', ''ObjectProperty''], labels = [], altLabels = [],
            comments = [], annotations = [], domains = [], ranges = [],
            subClassOf = [PDict [(''exprType'', PStr ''Named''), (''iri'', PStr ''ex:B'')]],
            equivalentClass = [], propertyCharacteristics = [], subPropertyOf = [],
            inverseOf = [], individualTypes = []\<rparr>,
           \<lparr>iri = ''ex:F'', types = [''Individual''], labels = [], altLabels = [],
            comments = [], annotations = [], domains = [], ranges = [],
            subClassOf = [], equivalentClass = [], propertyCharacteristics = [],
            subPropertyOf = [], inverseOf = [], individualTypes = [''ex:A'']\<rparr>]"
  by code_simp

lemma example_roles_acyclic: "acyclic (links example_roles_graph)"
proof -
  have "links example_roles_graph = {}"
    by (simp add: links_def link_preds_def filler_preds_def example_roles_graph_def vocab_defs)
  then show ?thesis by (simp add: acyclic_def)
qed

theorem one_record_per_term_witness:
  "(\<exists>enough rs. gather_terms enough example_roles_graph = Some rs)
   \<and> (\<exists>recs. gather_terms 1 example_roles_graph = Some recs
     \<and> map iri recs = [''ex:A'', ''ex:F'']
     \<and> map types recs = [[''Class'', ''ObjectProperty''], [''Individual'']]
     \<and> {pystr n | n. discovered example_roles_graph n} = {''ex:A'', ''ex:F''}
     \<and> set (term_roles example_roles_graph (URIRef ''ex:A'')) = {''Class'', ''ObjectProperty''})"
proof -
  have returns: "\<exists>enough rs. gather_terms enough example_roles_graph = Some rs"
    using one_record_per_term [of example_roles_graph 0 "[]", THEN conjunct1, rule_format,
        OF example_roles_acyclic] .
  have records: "\<exists>recs. gather_terms 1 example_roles_graph = Some recs
     \<and> map iri recs = [''ex:A'', ''ex:F'']
     \<and> map types recs = [[''Class'', ''ObjectProperty''], [''Individual'']]
     \<and> {pystr n | n. discovered example_roles_graph n} = {''ex:A'', ''ex:F''}
     \<and> set (term_roles example_roles_graph (URIRef ''ex:A'')) = {''Class'', ''ObjectProperty''}"
  proof -
    note t = one_record_per_term [THEN conjunct2, rule_format, OF example_roles_terms]
    from t have "{pystr n | n. discovered example_roles_graph n} = {''ex:A'', ''ex:F''}"
      by simp
    moreover from t
    have "set (term_roles example_roles_graph (URIRef ''ex:A'')) = {''Class'', ''ObjectProperty''}"
      by simp
    ultimately show ?thesis
      unfolding example_roles_terms by simp
  qed
  from returns records show ?thesis by (rule conjI)
qed

text \<open>
  Claim C4, as stated, fails: nothing collapses equal summaries. Two superclass triples whose
  objects are different anonymous nodes with the same summary give two equal entries.
\<close>

lemma example_twin_terms: "gather_terms 2 example_twin_graph = Some [example_twin_entry]"
  by code_simp

theorem class_expressions_counterexample:
  "gather_terms 2 example_twin_graph = Some [example_twin_entry]
   \<and> subClassOf example_twin_entry = [example_twin_summary, example_twin_summary]
   \<and> \<not> distinct (subClassOf example_twin_entry)"
  using example_twin_terms by (simp add: example_twin_entry_def)

lemma class_lists:
  assumes "gather_terms fuel g = Some recs" and "e \<in> set recs" and "''Class'' \<in> set (types e)"
  shows "map (summarize_expression fuel g) (objects g (URIRef (iri e)) RDFS_subClassOf) =
           map Some (subClassOf e)
     \<and> map (summarize_expression fuel g) (objects g (URIRef (iri e)) OWL_equivalentClass) =
           map Some (equivalentClass e)"
proof -
  from assms(1) obtain es where p: "process_terms fuel g [] (discover_terms g) = Some es"
    and r: "recs = map snd es" and k: "keyed es"
    by (rule gather_terms_entries)
  from assms(2) r have e': "e \<in> set (map snd es)" by simp
  let ?t0 = "(''Class'', URIRef (iri e))"
  let ?ts = "filter (\<lambda>t. pystr (snd t) = iri e) (discover_terms g)"
  have "set (types e) = set (field_at types es (iri e))"
    using keyed_field [OF k e', of types] by simp
  also have "\<dots> = set (term_roles g (URIRef (iri e)))"
    unfolding process_terms_types [OF p] discovered_roles by (simp add: field_at_def)
  finally have "''Class'' \<in> set (term_roles g (URIRef (iri e)))" using assms(3) by simp
  then have t0: "?t0 \<in> set (discover_terms g)" by (simp add: set_discover_terms)
  then have t0': "?t0 \<in> set ?ts" by simp
  have d: "distinct ?ts" using distinct_discover_terms by simp
  have other: "\<forall>t \<in> set ?ts. t \<noteq> ?t0 \<longrightarrow> summaries fuel g q t = []" for q
  proof (intro ballI impI)
    fix t assume t: "t \<in> set ?ts" and ne: "t \<noteq> ?t0"
    from t have "is_URIRef (snd t)" "pystr (snd t) = iri e"
      by (auto dest: discover_terms_named)
    with named_pystr [of "snd t"] have "snd t = URIRef (iri e)" by simp
    with ne have "fst t \<noteq> ''Class''" by (cases t) auto
    then show "summaries fuel g q t = []" by (simp add: summaries_def)
  qed
  from process_terms_summarized [OF p t0]
  obtain sups eqs where
    sups: "summarize_all (summarize_expression fuel g) (objects g (URIRef (iri e)) RDFS_subClassOf) = Some sups"
    and eqs: "summarize_all (summarize_expression fuel g) (objects g (URIRef (iri e)) OWL_equivalentClass) = Some eqs"
    by auto
  have "subClassOf e = field_at subClassOf es (iri e)"
    using keyed_field [OF k e', of subClassOf] by simp
  also have "\<dots> = concat (map (summaries fuel g RDFS_subClassOf) ?ts)"
    unfolding process_terms_subClassOf [OF p] by (simp add: field_at_def)
  also have "\<dots> = summaries fuel g RDFS_subClassOf ?t0"
    using concat_single [OF d other [of RDFS_subClassOf]] t0' by simp
  also have "\<dots> = sups" by (simp add: summaries_def sups)
  finally have 1: "subClassOf e = sups" .
  have "equivalentClass e = field_at equivalentClass es (iri e)"
    using keyed_field [OF k e', of equivalentClass] by simp
  also have "\<dots> = concat (map (summaries fuel g OWL_equivalentClass) ?ts)"
    unfolding process_terms_equivalentClass [OF p] by (simp add: field_at_def)
  also have "\<dots> = summaries fuel g OWL_equivalentClass ?t0"
    using concat_single [OF d other [of OWL_equivalentClass]] t0' by simp
  also have "\<dots> = eqs" by (simp add: summaries_def eqs)
  finally have 2: "equivalentClass e = eqs" .
  from sups eqs show ?thesis
    unfolding 1 2 summarize_all_Some_iff by simp
qed

lemma example_twin_acyclic: "acyclic (links example_twin_graph)"
proof (rule acyclicI_order [where f = bnode_rank])
  have l: "links example_twin_graph =
      {(BNode ''r1'', URIRef ''ex:Person''), (BNode ''r2'', URIRef ''ex:Person'')}"
    by (simp add: links_def link_preds_def filler_preds_def example_twin_graph_def vocab_defs)
  fix a b assume "(a, b) \<in> links example_twin_graph"
  then show "bnode_rank b < bnode_rank a" unfolding l by auto
qed

text \<open>
  Claim C4, amended. For every record in the class role, \<open>subClassOf\<close> is the list of the
  summaries of the objects of the term's subClassOf triples and \<open>equivalentClass\<close> that of its
  equivalentClass triples, one entry for each triple in store order, equal summaries
  included. On a graph whose links have no cycle the gatherer returns, with enough fuel.
\<close>

theorem class_expressions_appended:
  "(acyclic (links g) \<longrightarrow> (\<exists>enough rs. gather_terms enough g = Some rs))
   \<and> (gather_terms fuel g = Some recs \<and> e \<in> set recs \<and> ''Class'' \<in> set (types e) \<longrightarrow>
        map (summarize_expression fuel g) (objects g (URIRef (iri e)) RDFS_subClassOf) =
          map Some (subClassOf e)
      \<and> map (summarize_expression fuel g) (objects g (URIRef (iri e)) OWL_equivalentClass) =
          map Some (equivalentClass e))"
  using gather_terms_acyclic [of g] class_lists [of fuel g recs e] by blast

theorem class_expressions_appended_witness:
  "(\<exists>enough rs. gather_terms enough example_twin_graph = Some rs)
   \<and> map (summarize_expression 2 example_twin_graph)
       (objects example_twin_graph (URIRef ''ex:Dog'') RDFS_subClassOf) =
     [Some example_twin_summary, Some example_twin_summary]
   \<and> objects example_twin_graph (URIRef ''ex:Dog'') RDFS_subClassOf = [BNode ''r1'', BNode ''r2'']"
proof (intro conjI)
  show "\<exists>enough rs. gather_terms enough example_twin_graph = Some rs"
    using class_expressions_appended [of example_twin_graph 0 "[]" example_twin_entry,
        THEN conjunct1, rule_format, OF example_twin_acyclic] .
next
  have "example_twin_entry \<in> set [example_twin_entry]" by simp
  moreover have "''Class'' \<in> set (types example_twin_entry)"
    by (simp add: example_twin_entry_def)
  ultimately have "map (summarize_expression 2 example_twin_graph)
       (objects example_twin_graph (URIRef (iri example_twin_entry)) RDFS_subClassOf) =
     map Some (subClassOf example_twin_entry)"
    using class_expressions_appended [of example_twin_graph 2 "[example_twin_entry]" example_twin_entry]
      example_twin_terms
    by blast
  then show "map (summarize_expression 2 example_twin_graph)
       (objects example_twin_graph (URIRef ''ex:Dog'') RDFS_subClassOf) =
     [Some example_twin_summary, Some example_twin_summary]"
    by (simp add: example_twin_entry_def)
next
  show "objects example_twin_graph (URIRef ''ex:Dog'') RDFS_subClassOf = [BNode ''r1'', BNode ''r2'']"
    by code_simp
qed

subsection \<open>The command line\<close>




end
